theory Spec2Isabelle
  imports Complex_Main "HOL-Library.AList"
begin

section \<open>JavaScript values\<close>

text \<open>
  The store keeps dynamically typed JavaScript values (\<^verbatim>\<open>any\<close>). A value is embedded as a
  tree: the two nil values, the primitives, arrays and plain objects. A hole of a sparse
  array reads as \<^verbatim>\<open>undefined\<close> and serialises as \<^verbatim>\<open>null\<close>, exactly like an element that
  is \<^verbatim>\<open>undefined\<close>, so a hole is the element \<open>Undefined\<close>. An object is the list of its own
  properties in insertion order. The trees are values: no object is shared between two
  places, and a caller does not change a value after handing it over.

  A number is a double: a finite one other than \<^verbatim>\<open>-0\<close> is the rational it is (\<open>Finite 0\<close>
  is \<^verbatim>\<open>+0\<close>), and next to them are \<^verbatim>\<open>-0\<close>, \<^verbatim>\<open>NaN\<close> and the two infinities. The
  class does no arithmetic, so no rounding is embedded, and a rational that is no double
  is a number no caller can pass.

  Outside the embedding are: functions; members inherited from a prototype (a key is
  taken not to name one, so a key that is no own property reads \<^verbatim>\<open>undefined\<close>); and
  properties of an array other than its elements and its \<^verbatim>\<open>length\<close>.
\<close>

datatype jsnum = Finite rat | NegZero | NaN | PosInfinity | NegInfinity

datatype jsval =
    Undefined
  | Null
  | Bool bool
  | Number jsnum
  | Str string
  | Arr "jsval list"
  | Obj "(string \<times> jsval) list"

text \<open>The number an integer is.\<close>

abbreviation Num :: "int \<Rightarrow> jsval" where
  "Num n \<equiv> Number (Finite (of_int n))"

text \<open>\<^verbatim>\<open>x === null || x === undefined\<close> (lodash: \<^verbatim>\<open>x == null\<close>).\<close>

fun isNil :: "jsval \<Rightarrow> bool" where
  "isNil Undefined = True"
| "isNil Null = True"
| "isNil v = False"

text \<open>lodash \<^verbatim>\<open>isObject\<close>: arrays and objects, no primitive and no nil.\<close>

fun isObject :: "jsval \<Rightarrow> bool" where
  "isObject (Arr xs) = True"
| "isObject (Obj kvs) = True"
| "isObject v = False"

text \<open>The truthiness test of \<^verbatim>\<open>if (x)\<close>.\<close>

fun truthy :: "jsval \<Rightarrow> bool" where
  "truthy Undefined = False"
| "truthy Null = False"
| "truthy (Bool b) = b"
| "truthy (Number n) = (n \<noteq> Finite 0 \<and> n \<noteq> NegZero \<and> n \<noteq> NaN)"
| "truthy (Str s) = (s \<noteq> [])"
| "truthy (Arr xs) = True"
| "truthy (Obj kvs) = True"

section \<open>Property keys\<close>

text \<open>
  A path is the list of property keys lodash's \<^verbatim>\<open>castPath\<close> makes of the \<^verbatim>\<open>path\<close> argument
  (\<^verbatim>\<open>'tags.0'\<close> is \<open>[''tags'', ''0'']\<close>, the number \<^verbatim>\<open>3\<close> is \<open>[''3'']\<close>); the tokenizer itself
  belongs to lodash and is not embedded.
\<close>

type_synonym path = "string list"

definition digit_of :: "char \<Rightarrow> nat option" where
  "digit_of = map_of
     [(CHR ''0'', 0), (CHR ''1'', 1), (CHR ''2'', 2), (CHR ''3'', 3), (CHR ''4'', 4),
      (CHR ''5'', 5), (CHR ''6'', 6), (CHR ''7'', 7), (CHR ''8'', 8), (CHR ''9'', 9)]"

fun digits_val :: "nat \<Rightarrow> string \<Rightarrow> nat option" where
  "digits_val acc [] = Some acc"
| "digits_val acc (c # cs) =
     (case digit_of c of None \<Rightarrow> None | Some d \<Rightarrow> digits_val (10 * acc + d) cs)"

text \<open>lodash \<^verbatim>\<open>reIsUint = /^(?:0|[1-9]\d*)$/\<close>, with the number the match denotes.\<close>

definition reIsUint :: "string \<Rightarrow> nat option" where
  "reIsUint s =
     (case s of
        [] \<Rightarrow> None
      | c # cs \<Rightarrow> if c = CHR ''0'' \<and> cs \<noteq> [] then None else digits_val 0 s)"

text \<open>lodash \<^verbatim>\<open>isIndex(value)\<close> without a length: below \<^verbatim>\<open>MAX_SAFE_INTEGER\<close>.\<close>

definition isIndex :: "string \<Rightarrow> bool" where
  "isIndex k = (case reIsUint k of None \<Rightarrow> False | Some n \<Rightarrow> int n < 9007199254740991)"

text \<open>The array indices of JavaScript: the canonical numerals below \<open>2^32 - 1\<close>.\<close>

definition array_index :: "string \<Rightarrow> nat option" where
  "array_index k =
     (case reIsUint k of None \<Rightarrow> None | Some n \<Rightarrow> if int n < 4294967295 then Some n else None)"

section \<open>Reading, writing and deleting one property\<close>

text \<open>\<^verbatim>\<open>object[key]\<close> on a value that is not nil: own properties only.\<close>

fun getProp :: "jsval \<Rightarrow> string \<Rightarrow> jsval" where
  "getProp (Obj kvs) k = (case map_of kvs k of None \<Rightarrow> Undefined | Some v \<Rightarrow> v)"
| "getProp (Arr xs) k =
     (case array_index k of
        Some i \<Rightarrow> if i < length xs then xs ! i else Undefined
      | None \<Rightarrow> if k = ''length'' then Num (int (length xs)) else Undefined)"
| "getProp (Str s) k =
     (case array_index k of
        Some i \<Rightarrow> if i < length s then Str [s ! i] else Undefined
      | None \<Rightarrow> if k = ''length'' then Num (int (length s)) else Undefined)"
| "getProp v k = Undefined"

text \<open>
  \<^verbatim>\<open>array[i] = v\<close>: inside the array the element is replaced, beyond its end the array
  grows and the indices in between are holes.
\<close>

definition arr_put :: "jsval list \<Rightarrow> nat \<Rightarrow> jsval \<Rightarrow> jsval list" where
  "arr_put xs i v =
     (if i < length xs then xs[i := v] else xs @ replicate (i - length xs) Undefined @ [v])"

datatype error =
    InvalidKey        \<comment> \<open>\<^verbatim>\<open>The Database requires keys to be strings or numbers\<close>\<close>
  | MissingDefault    \<comment> \<open>\<^verbatim>\<open>No default value provided on ensure method ...\<close>\<close>
  | BindError         \<comment> \<open>better-sqlite3 refuses to bind the parameter\<close>
  | Unmodelled        \<comment> \<open>the call leaves the embedding (see \<open>setProp\<close>)\<close>

text \<open>
  \<^verbatim>\<open>object[key] = value\<close> on an array or an object. Writing a key of an array that is not
  an array index (\<^verbatim>\<open>length\<close>, or a named property, which JSON would drop) has no image among
  the trees: the embedding reports it as \<open>Unmodelled\<close> and claims nothing about such a call.
\<close>

fun setProp :: "jsval \<Rightarrow> string \<Rightarrow> jsval \<Rightarrow> error + jsval" where
  "setProp (Obj kvs) k v = Inr (Obj (AList.update k v kvs))"
| "setProp (Arr xs) k v =
     (case array_index k of
        Some i \<Rightarrow> Inr (Arr (arr_put xs i v))
      | None \<Rightarrow> Inl Unmodelled)"
| "setProp obj k v = Inr obj"

text \<open>
  \<^verbatim>\<open>delete object[key]\<close> in sloppy mode, with its result: \<^verbatim>\<open>true\<close> unless the property is
  an own one that cannot be configured (\<^verbatim>\<open>length\<close>, a character of a string). Deleting an
  element of an array leaves a hole and keeps the length.
\<close>

fun deleteProp :: "jsval \<Rightarrow> string \<Rightarrow> bool \<times> jsval" where
  "deleteProp (Obj kvs) k = (True, Obj (AList.delete k kvs))"
| "deleteProp (Arr xs) k =
     (case array_index k of
        Some i \<Rightarrow> (True, Arr (if i < length xs then xs[i := Undefined] else xs))
      | None \<Rightarrow> (k \<noteq> ''length'', Arr xs))"
| "deleteProp (Str s) k =
     (case array_index k of
        Some i \<Rightarrow> (\<not> i < length s, Str s)
      | None \<Rightarrow> (k \<noteq> ''length'', Str s))"
| "deleteProp v k = (True, v)"

section \<open>lodash: get, set, unset\<close>

text \<open>
  \<^verbatim>\<open>baseGet\<close>: \<^verbatim>\<open>while (object != null && index < length) object = object[path[index++]]\<close>,
  then \<^verbatim>\<open>(index && index == length) ? object : undefined\<close>.
\<close>

fun baseGet_loop :: "jsval \<Rightarrow> path \<Rightarrow> jsval" where
  "baseGet_loop object [] = object"
| "baseGet_loop object (k # ks) =
     (if isNil object then Undefined else baseGet_loop (getProp object k) ks)"

definition baseGet :: "jsval \<Rightarrow> path \<Rightarrow> jsval" where
  "baseGet object p = (if p = [] then Undefined else baseGet_loop object p)"

definition lodash_get :: "jsval \<Rightarrow> path \<Rightarrow> jsval" where
  "lodash_get object p = (if isNil object then Undefined else baseGet object p)"

text \<open>
  \<^verbatim>\<open>baseSet\<close> (lodash 4.17.21). The loop assigns into \<^verbatim>\<open>nested\<close> and steps into the child;
  the object is mutated in place, so the function returns \<^verbatim>\<open>nested\<close> as it is when the loop
  is over. A key that is not the last keeps the child it finds when that is an array or
  an object, and replaces anything else by a fresh \<^verbatim>\<open>[]\<close> (when the next key is an index)
  or \<^verbatim>\<open>{}\<close>. The three reserved keys end the loop.
\<close>

definition reserved_key :: "string \<Rightarrow> bool" where
  "reserved_key k = (k = ''__proto__'' \<or> k = ''constructor'' \<or> k = ''prototype'')"

fun baseSet_loop :: "jsval \<Rightarrow> path \<Rightarrow> jsval \<Rightarrow> error + jsval" where
  "baseSet_loop nested [] v = Inr nested"
| "baseSet_loop nested [k] v =
     (if reserved_key k then Inr nested else setProp nested k v)"
| "baseSet_loop nested (k # k' # ks) v =
     (if reserved_key k then Inr nested
      else
        let objValue = getProp nested k;
            newValue = (if isObject objValue then objValue
                        else if isIndex k' then Arr [] else Obj [])
        in case setProp nested k newValue of
             Inl e \<Rightarrow> Inl e
           | Inr _ \<Rightarrow>
               (case baseSet_loop newValue (k' # ks) v of
                  Inl e \<Rightarrow> Inl e
                | Inr child \<Rightarrow> setProp nested k child))"

definition baseSet :: "jsval \<Rightarrow> path \<Rightarrow> jsval \<Rightarrow> error + jsval" where
  "baseSet object p v = (if \<not> isObject object then Inr object else baseSet_loop object p v)"

definition lodash_set :: "jsval \<Rightarrow> path \<Rightarrow> jsval \<Rightarrow> error + jsval" where
  "lodash_set object p v = (if isNil object then Inr object else baseSet object p v)"

text \<open>
  \<^verbatim>\<open>baseUnset\<close>: \<^verbatim>\<open>object = parent(object, path); return object == null || delete object[last(path)]\<close>.
  The result pairs what \<^verbatim>\<open>_.unset\<close> returns with the object after the deletion in
  place: a child that is an array or an object is an own element of its parent, and the
  parent holds it as changed. An empty path deletes the key \<^verbatim>\<open>'undefined'\<close>
  (\<^verbatim>\<open>toKey(last([]))\<close>).
\<close>

fun baseUnset :: "jsval \<Rightarrow> path \<Rightarrow> bool \<times> jsval" where
  "baseUnset object [] = deleteProp object ''undefined''"
| "baseUnset object [k] = deleteProp object k"
| "baseUnset object (k # k' # ks) =
     (let child = getProp object k in
      if isNil child then (True, object)
      else
        case baseUnset child (k' # ks) of
          (deleted, child') \<Rightarrow>
            (deleted,
             if isObject child
             then (case setProp object k child' of Inl e \<Rightarrow> object | Inr object' \<Rightarrow> object')
             else object))"

definition lodash_unset :: "jsval \<Rightarrow> path \<Rightarrow> bool \<times> jsval" where
  "lodash_unset object p = (if isNil object then (True, object) else baseUnset object p)"

section \<open>JSON and the table\<close>

text \<open>
  The \<^verbatim>\<open>value\<close> column holds JSON text. A text is given by the document it denotes:
  JSON has \<^verbatim>\<open>null\<close>, the booleans, finite numbers, strings, arrays and objects, and
  nothing else. A numeral is the finite number \<^verbatim>\<open>JSON.parse\<close> reads it as; a numeral
  beyond the range of the doubles, which \<^verbatim>\<open>JSON.stringify\<close> never writes, is outside the
  embedding.
\<close>

datatype json =
    JNull
  | JBool bool
  | JNum rat
  | JStr string
  | JArr "json list"
  | JObj "(string \<times> json) list"

text \<open>
  What \<^verbatim>\<open>JSON.stringify\<close> writes for a value inside a text: \<^verbatim>\<open>NaN\<close> and the infinities
  are written \<^verbatim>\<open>null\<close>, \<^verbatim>\<open>-0\<close> is written \<^verbatim>\<open>0\<close>, an element that is \<^verbatim>\<open>undefined\<close> is
  written \<^verbatim>\<open>null\<close>, and a property whose value is \<^verbatim>\<open>undefined\<close> is left out.
\<close>

fun number_to_json :: "jsnum \<Rightarrow> json" where
  "number_to_json (Finite r) = JNum r"
| "number_to_json NegZero = JNum 0"
| "number_to_json n = JNull"

fun to_json :: "jsval \<Rightarrow> json" where
  "to_json Undefined = JNull"
| "to_json Null = JNull"
| "to_json (Bool x) = JBool x"
| "to_json (Number n) = number_to_json n"
| "to_json (Str s) = JStr s"
| "to_json (Arr xs) = JArr (map to_json xs)"
| "to_json (Obj kvs) =
     JObj (map (\<lambda>(k, v). (k, to_json v)) (filter (\<lambda>(k, v). v \<noteq> Undefined) kvs))"

text \<open>What \<^verbatim>\<open>JSON.parse\<close> reads from a text.\<close>

fun of_json :: "json \<Rightarrow> jsval" where
  "of_json JNull = Null"
| "of_json (JBool x) = Bool x"
| "of_json (JNum r) = Number (Finite r)"
| "of_json (JStr s) = Str s"
| "of_json (JArr js) = Arr (map of_json js)"
| "of_json (JObj kjs) = Obj (map (\<lambda>(k, j). (k, of_json j)) kjs)"

text \<open>\<^verbatim>\<open>JSON.parse(JSON.stringify(v))\<close> for a value \<open>v\<close> that is not \<^verbatim>\<open>undefined\<close>.\<close>

definition jsonify :: "jsval \<Rightarrow> jsval" where
  "jsonify v = of_json (to_json v)"

text \<open>A column value of SQLite: \<^verbatim>\<open>NULL\<close> or a text.\<close>

datatype sqlval = SqlNull | Text json

text \<open>The text \<^verbatim>\<open>JSON.stringify(v)\<close> is, for a value \<open>v\<close> that is not \<^verbatim>\<open>undefined\<close>.\<close>

definition SqlText :: "jsval \<Rightarrow> sqlval" where
  "SqlText v = Text (to_json v)"

text \<open>
  \<^verbatim>\<open>JSON.stringify(v)\<close> handed to \<^verbatim>\<open>run\<close>: \<^verbatim>\<open>JSON.stringify(undefined)\<close> is \<^verbatim>\<open>undefined\<close>,
  which better-sqlite3 binds as \<^verbatim>\<open>NULL\<close>.
\<close>

definition JSON_stringify :: "jsval \<Rightarrow> sqlval" where
  "JSON_stringify v = (if v = Undefined then SqlNull else SqlText v)"

text \<open>\<^verbatim>\<open>JSON.parse(row.value)\<close>; a \<^verbatim>\<open>NULL\<close> column arrives as \<^verbatim>\<open>null\<close> and parses to \<^verbatim>\<open>null\<close>.\<close>

fun JSON_parse :: "sqlval \<Rightarrow> jsval" where
  "JSON_parse SqlNull = Null"
| "JSON_parse (Text j) = of_json j"

section \<open>The class Base\<close>

text \<open>
  \<open>database\<close> is the table \<^verbatim>\<open>(key text PRIMARY KEY, value text)\<close> as the list of its rows;
  \<open>map_mem\<close> is the field \<^verbatim>\<open>map?: Map<any, any>\<close>, absent when the option \<^verbatim>\<open>inMemory\<close> is
  \<^verbatim>\<open>false\<close>, as the list of its entries in insertion order.
\<close>

record base =
  database :: "(string \<times> sqlval) list"
  map_mem :: "(string \<times> jsval) list option"

text \<open>
  The \<^verbatim>\<open>key\<close> argument as it arrives at run time: nil, a string, a number, or something
  else, for which a boolean stands. The class uses a number in one way only, it calls
  \<^verbatim>\<open>key.toString()\<close>; so a number is given by the string that call returns (\<open>KNum ''7''\<close>
  is \<^verbatim>\<open>7\<close>, \<open>KNum ''1.5''\<close> is \<^verbatim>\<open>1.5\<close>, \<open>KNum ''NaN''\<close> is \<^verbatim>\<open>NaN\<close>).
\<close>

datatype jskey = KNil | KStr string | KNum string | KBool bool

text \<open>\<^verbatim>\<open>typeof key === 'string'\<close> and \<^verbatim>\<open>typeof key === 'number'\<close>\<close>

fun typeof_string :: "jskey \<Rightarrow> bool" where
  "typeof_string (KStr s) = True"
| "typeof_string key = False"

fun typeof_number :: "jskey \<Rightarrow> bool" where
  "typeof_number (KNum s) = True"
| "typeof_number key = False"

text \<open>\<^verbatim>\<open>if (typeof key === 'number') key = key.toString()\<close>\<close>

fun number_to_string :: "jskey \<Rightarrow> jskey" where
  "number_to_string (KNum s) = KStr s"
| "number_to_string key = key"

text \<open>The constructor, on the rows the table holds already.\<close>

definition fetchEverything :: "base \<Rightarrow> base" where
  "fetchEverything b =
     b\<lparr>map_mem := Some (map (\<lambda>(k, value). (k, JSON_parse value)) (database b))\<rparr>"

definition constructor :: "(string \<times> sqlval) list \<Rightarrow> bool \<Rightarrow> base" where
  "constructor rows inMemory =
     (let b = \<lparr>database = rows, map_mem = None\<rparr>
      in if inMemory then fetchEverything b else b)"

text \<open>
  \<^verbatim>\<open>getValueObjectAtKey\<close>. With the map it is \<^verbatim>\<open>map.get(key)\<close>, and the map holds string
  keys only. Without it the key is bound to the \<^verbatim>\<open>SELECT\<close>: a string selects its row, nil
  binds \<^verbatim>\<open>NULL\<close> and selects nothing, a boolean is refused.
\<close>

fun getValueObjectAtKey :: "base \<Rightarrow> jskey \<Rightarrow> error + jsval" where
  "getValueObjectAtKey b key =
     (case map_mem b of
        Some m \<Rightarrow>
          (case key of
             KStr k \<Rightarrow> Inr (case map_of m k of None \<Rightarrow> Undefined | Some v \<Rightarrow> v)
           | _ \<Rightarrow> Inr Undefined)
      | None \<Rightarrow>
          (case key of
             KStr k \<Rightarrow>
               Inr (case map_of (database b) k of
                      None \<Rightarrow> Undefined
                    | Some possibleValue \<Rightarrow> JSON_parse possibleValue)
           | KBool x \<Rightarrow> Inl BindError
           | _ \<Rightarrow> Inr Undefined))"

text \<open>\<^verbatim>\<open>get(key, path?)\<close>; \<open>None\<close> is a path that is \<^verbatim>\<open>null\<close> or \<^verbatim>\<open>undefined\<close>.\<close>

definition get :: "base \<Rightarrow> jskey \<Rightarrow> path option \<Rightarrow> error + jsval" where
  "get b key path =
     (if key = KNil then Inr Null
      else
        case getValueObjectAtKey b (number_to_string key) of
          Inl e \<Rightarrow> Inl e
        | Inr valueObject \<Rightarrow>
            (case path of
               Some p \<Rightarrow> Inr (lodash_get valueObject p)
             | None \<Rightarrow> Inr valueObject))"

text \<open>
  \<^verbatim>\<open>set(key, value, path?)\<close>, here \<open>set_value\<close>. The result pairs what the call does
  (\<open>Inl\<close>: it throws) with the object afterwards. Past the check of its type the key is
  a string.
\<close>

definition set_value :: "base \<Rightarrow> jskey \<Rightarrow> jsval \<Rightarrow> path option \<Rightarrow> (error + unit) \<times> base" where
  "set_value b key v path =
     (if \<not> typeof_string key \<and> \<not> typeof_number key then (Inl InvalidKey, b)
      else
        case number_to_string key of
          KStr k \<Rightarrow>
            (case getValueObjectAtKey b (KStr k) of
               Inl e \<Rightarrow> (Inl e, b)
             | Inr valueObject \<Rightarrow>
                 (case (case path of
                          Some p \<Rightarrow>
                            lodash_set (if isNil valueObject then Obj [] else valueObject) p v
                        | None \<Rightarrow> Inr v) of
                    Inl e \<Rightarrow> (Inl e, b)
                  | Inr valueObject' \<Rightarrow>
                      (Inr (),
                       b\<lparr>database := AList.update k (JSON_stringify valueObject') (database b),
                         map_mem := map_option (AList.update k valueObject') (map_mem b)\<rparr>)))
        | _ \<Rightarrow> (Inl InvalidKey, b))"

text \<open>\<^verbatim>\<open>ensure(key, defaultValue, path?)\<close>\<close>

definition ensure :: "base \<Rightarrow> jskey \<Rightarrow> jsval \<Rightarrow> path option \<Rightarrow> (error + jsval) \<times> base" where
  "ensure b key defaultValue path =
     (if isNil defaultValue then (Inl MissingDefault, b)
      else
        case get b key path of
          Inl e \<Rightarrow> (Inl e, b)
        | Inr possibleValue \<Rightarrow>
            (if truthy possibleValue then (Inr possibleValue, b)
             else
               (case set_value b key defaultValue path of
                  (Inl e, b') \<Rightarrow> (Inl e, b')
                | (Inr u, b') \<Rightarrow> (Inr defaultValue, b'))))"

text \<open>
  \<^verbatim>\<open>delete(key, path?)\<close>. With a path, \<^verbatim>\<open>_.unset\<close> changes \<^verbatim>\<open>data\<close> in place and \<^verbatim>\<open>set\<close>
  stores it. Without one the entry leaves the map, then the row leaves the table; the key
  is bound to the \<^verbatim>\<open>DELETE\<close> as it is to the \<^verbatim>\<open>SELECT\<close>.
\<close>

definition delete :: "base \<Rightarrow> jskey \<Rightarrow> path option \<Rightarrow> (error + bool) \<times> base" where
  "delete b key0 path =
     (let key = number_to_string key0 in
      case get b key None of
        Inl e \<Rightarrow> (Inl e, b)
      | Inr data \<Rightarrow>
          (case path of
             Some p \<Rightarrow>
               (case lodash_unset data p of
                  (hasDeletedSomething, data') \<Rightarrow>
                    (case set_value b key data' None of
                       (Inl e, b') \<Rightarrow> (Inl e, b')
                     | (Inr u, b') \<Rightarrow> (Inr hasDeletedSomething, b')))
           | None \<Rightarrow>
               (case key of
                  KStr k \<Rightarrow>
                    (Inr (truthy data),
                     b\<lparr>map_mem := map_option (AList.delete k) (map_mem b),
                       database := AList.delete k (database b)\<rparr>)
                | KBool x \<Rightarrow> (Inl BindError, b)
                | _ \<Rightarrow> (Inr (truthy data), b))))"

text \<open>\<^verbatim>\<open>deleteAll()\<close>\<close>

definition deleteAll :: "base \<Rightarrow> base" where
  "deleteAll b = b\<lparr>database := [], map_mem := map_option (\<lambda>m. []) (map_mem b)\<rparr>"

text \<open>
  \<^verbatim>\<open>indices\<close>: the keys of the map, or of the rows. A \<^verbatim>\<open>SELECT\<close> without \<^verbatim>\<open>ORDER BY\<close>
  promises no order, so the result is the set of the keys.
\<close>

definition indices :: "base \<Rightarrow> string set" where
  "indices b =
     (case map_mem b of
        Some m \<Rightarrow> set (map fst m)
      | None \<Rightarrow> set (map fst (database b)))"

section \<open>Sequences of calls\<close>

datatype call =
    Get jskey "path option"
  | Set jskey jsval "path option"
  | Ensure jskey jsval "path option"
  | Delete jskey "path option"
  | DeleteAll
  | Indices

datatype result = Value jsval | Flag bool | Keys "string set" | Void

fun exec :: "call \<Rightarrow> base \<Rightarrow> (error + result) \<times> base" where
  "exec (Get key p) b = (map_sum id Value (get b key p), b)"
| "exec (Set key v p) b =
     (case set_value b key v p of (r, b') \<Rightarrow> (map_sum id (\<lambda>u. Void) r, b'))"
| "exec (Ensure key d p) b =
     (case ensure b key d p of (r, b') \<Rightarrow> (map_sum id Value r, b'))"
| "exec (Delete key p) b =
     (case delete b key p of (r, b') \<Rightarrow> (map_sum id Flag r, b'))"
| "exec DeleteAll b = (Inr Void, deleteAll b)"
| "exec Indices b = (Inr (Keys (indices b)), b)"

text \<open>A caller that catches what a call throws goes on with the next call.\<close>

fun run :: "call list \<Rightarrow> base \<Rightarrow> (error + result) list \<times> base" where
  "run [] b = ([], b)"
| "run (c # cs) b =
     (case exec c b of (r, b') \<Rightarrow> (case run cs b' of (rs, b'') \<Rightarrow> (r # rs, b'')))"

section \<open>Values of the specification, and how the two stores relate\<close>

text \<open>
  The values that JSON has: a tree of null, booleans, numbers, texts, sequences and
  mappings with no \<^verbatim>\<open>undefined\<close> and no hole in it, whose numbers are finite and not
  \<^verbatim>\<open>-0\<close>.
\<close>

fun finite_number :: "jsnum \<Rightarrow> bool" where
  "finite_number (Finite r) = True"
| "finite_number n = False"

fun is_json :: "jsval \<Rightarrow> bool" where
  "is_json Undefined = False"
| "is_json (Number n) = finite_number n"
| "is_json (Arr xs) = list_all is_json xs"
| "is_json (Obj kvs) = list_all (\<lambda>(k, v). is_json v) kvs"
| "is_json v = True"

fun is_scalar :: "jsval \<Rightarrow> bool" where
  "is_scalar (Bool x) = True"
| "is_scalar (Number n) = True"
| "is_scalar (Str s) = True"
| "is_scalar v = False"

text \<open>A table whose every value is a text, none \<^verbatim>\<open>NULL\<close>.\<close>

fun is_text :: "sqlval \<Rightarrow> bool" where
  "is_text SqlNull = False"
| "is_text (Text j) = True"

definition wf_table :: "(string \<times> sqlval) list \<Rightarrow> bool" where
  "wf_table rows = list_all (\<lambda>(k, t). is_text t) rows"

text \<open>
  The map agrees with the table: a key of the table is in the map with the value its text
  parses to, and the map has no other key.
\<close>

definition agree :: "base \<Rightarrow> bool" where
  "agree b =
     (case map_mem b of
        None \<Rightarrow> True
      | Some m \<Rightarrow>
          list_all (\<lambda>k. map_of m k = map_option JSON_parse (map_of (database b) k))
            (map fst m @ map fst (database b)))"

text \<open>
  The table is the image of the map: the keys are the same, and the row of a key holds
  what \<^verbatim>\<open>JSON.stringify\<close> makes of the value the map has for it.
\<close>

definition stored_image :: "base \<Rightarrow> bool" where
  "stored_image b =
     (case map_mem b of
        None \<Rightarrow> True
      | Some m \<Rightarrow>
          list_all (\<lambda>k. map_of (database b) k = map_option JSON_stringify (map_of m k))
            (map fst m @ map fst (database b)))"

definition mirror_json :: "base \<Rightarrow> bool" where
  "mirror_json b =
     (case map_mem b of None \<Rightarrow> True | Some m \<Rightarrow> list_all (\<lambda>(k, v). is_json v) m)"




text \<open>
  The part of a Value at a location: through a mapping by the name of a property, through
  a sequence by an index inside it.
\<close>

fun node_at :: "jsval \<Rightarrow> path \<Rightarrow> jsval option" where
  "node_at v [] = Some v"
| "node_at (Obj kvs) (k # ks) =
     (case map_of kvs k of None \<Rightarrow> None | Some x \<Rightarrow> node_at x ks)"
| "node_at (Arr xs) (k # ks) =
     (case array_index k of
        Some i \<Rightarrow> if i < length xs then node_at (xs ! i) ks else None
      | None \<Rightarrow> None)"
| "node_at v (k # ks) = None"

text \<open>Two locations part ways: at some position their keys differ.\<close>

fun diverge :: "path \<Rightarrow> path \<Rightarrow> bool" where
  "diverge (a # p) (b # q) = (a \<noteq> b \<or> diverge p q)"
| "diverge p q = False"


text \<open>
  Along the path, a sequence is addressed by an array index: a sequence of the value, or
  one the write makes where it finds no array or object (lodash makes \<^verbatim>\<open>[]\<close> when the next
  key is an index below \<^verbatim>\<open>MAX_SAFE_INTEGER\<close>, JavaScript has array indices below
  \<open>2^32 - 1\<close> only).
\<close>

fun addresses_by_index :: "jsval \<Rightarrow> path \<Rightarrow> bool" where
  "addresses_by_index v [] = True"
| "addresses_by_index (Arr xs) (k # ks) =
     (array_index k \<noteq> None \<and> addresses_by_index (getProp (Arr xs) k) ks)"
| "addresses_by_index (Obj kvs) (k # ks) = addresses_by_index (getProp (Obj kvs) k) ks"
| "addresses_by_index v (k # ks) =
     ((isIndex k \<longrightarrow> array_index k \<noteq> None) \<and> addresses_by_index Undefined ks)"

text \<open>
  The names every object inherits from \<^verbatim>\<open>Object.prototype\<close>. Reading one that is not an own
  property yields the inherited member, which the embedding does not have; a plain key is
  none of them and none of the keys \<^verbatim>\<open>baseSet\<close> refuses.
\<close>

definition inherited_names :: "string list" where
  "inherited_names =
     [''constructor'', ''__proto__'', ''__defineGetter__'', ''__defineSetter__'',
      ''__lookupGetter__'', ''__lookupSetter__'', ''hasOwnProperty'', ''isPrototypeOf'',
      ''propertyIsEnumerable'', ''toLocaleString'', ''toString'', ''valueOf'']"

definition plain_key :: "string \<Rightarrow> bool" where
  "plain_key k = (\<not> reserved_key k \<and> k \<notin> set inherited_names)"

section \<open>Facts about JSON and the association lists\<close>

lemmas facade_defs =
  constructor_def fetchEverything_def set_value_def get_def ensure_def delete_def Let_def

lemmas lodash_defs =
  lodash_set_def lodash_get_def lodash_unset_def baseSet_def baseGet_def isIndex_def
  array_index_def reIsUint_def digit_of_def reserved_key_def arr_put_def

lemma of_json_defined: "of_json j \<noteq> Undefined"
  by (cases j) auto

lemma to_json_of_json: "to_json (of_json j) = j"
proof (induction j rule: of_json.induct)
  case (5 js)
  then show ?case by (simp add: map_idI)
next
  case (6 kjs)
  have f: "filter (\<lambda>(k, v). v \<noteq> Undefined) (map (\<lambda>(k, j). (k, of_json j)) kjs)
             = map (\<lambda>(k, j). (k, of_json j)) kjs"
    by (auto simp: filter_id_conv of_json_defined)
  have "map ((\<lambda>(k, v). (k, to_json v)) \<circ> (\<lambda>(k, j). (k, of_json j))) kjs = kjs"
    using 6 by (intro map_idI) auto
  with f show ?case by simp
qed simp_all

lemma is_json_of_json: "is_json (of_json j)"
  by (induction j rule: of_json.induct) (auto simp: list_all_iff)

lemma jsonify_simps [simp]:
  "jsonify Undefined = Null"
  "jsonify Null = Null"
  "jsonify (Bool x) = Bool x"
  "jsonify (Number (Finite r)) = Number (Finite r)"
  "jsonify (Number NegZero) = Number (Finite 0)"
  "jsonify (Number NaN) = Null"
  "jsonify (Number PosInfinity) = Null"
  "jsonify (Number NegInfinity) = Null"
  "jsonify (Str s) = Str s"
  "jsonify (Arr xs) = Arr (map jsonify xs)"
  "jsonify (Obj kvs) =
     Obj (map (\<lambda>(k, v). (k, jsonify v)) (filter (\<lambda>(k, v). v \<noteq> Undefined) kvs))"
  by (auto simp: jsonify_def)

lemma jsonify_id: "is_json v \<Longrightarrow> jsonify v = v"
proof (induction v rule: to_json.induct)
  case (4 n)
  then show ?case by (cases n) simp_all
next
  case (6 xs)
  then show ?case by (simp add: list_all_iff map_idI)
next
  case (7 kvs)
  have f: "filter (\<lambda>(k, v). v \<noteq> Undefined) kvs = kvs"
    using 7(2) by (auto simp: list_all_iff filter_id_conv)
  have "map (\<lambda>(k, v). (k, jsonify v)) kvs = kvs"
    using 7 f by (intro map_idI) (auto simp: list_all_iff)
  with f show ?case by simp
qed simp_all

lemma JSON_parse_SqlText [simp]: "JSON_parse (SqlText v) = jsonify v"
  by (simp add: SqlText_def jsonify_def)

lemma JSON_stringify_json: "is_json v \<Longrightarrow> JSON_stringify v = SqlText v"
  by (auto simp: JSON_stringify_def)

lemma JSON_parse_stringify: "is_json v \<Longrightarrow> JSON_parse (JSON_stringify v) = v"
  by (simp add: JSON_stringify_json jsonify_id)

lemma stringify_parse: "is_text t \<Longrightarrow> JSON_stringify (JSON_parse t) = t"
  by (cases t) (auto simp: JSON_stringify_def SqlText_def of_json_defined to_json_of_json)

lemma number_to_string_cases:
  "typeof_string key \<or> typeof_number key \<Longrightarrow> \<exists>k. number_to_string key = KStr k"
  by (cases key) auto


lemma map_of_parsed:
  "map_of (map (\<lambda>(k, value). (k, JSON_parse value)) rows) k
     = map_option JSON_parse (map_of rows k)"
  by (induction rows) auto

lemma wf_table_row: "wf_table rows \<Longrightarrow> map_of rows k = Some t \<Longrightarrow> is_text t"
  by (auto simp: wf_table_def list_all_iff dest: map_of_SomeD)

text \<open>The two relations, said for every key rather than for the keys in the lists.\<close>

lemma agree_iff:
  "agree b \<longleftrightarrow>
     (\<forall>m. map_mem b = Some m \<longrightarrow>
        (\<forall>k. map_of m k = map_option JSON_parse (map_of (database b) k)))"
proof (cases "map_mem b")
  case None
  then show ?thesis by (simp add: agree_def)
next
  case (Some m)
  have "(\<forall>k\<in>set (map fst m @ map fst (database b)).
            map_of m k = map_option JSON_parse (map_of (database b) k))
        \<longleftrightarrow> (\<forall>k. map_of m k = map_option JSON_parse (map_of (database b) k))"
  proof
    assume a: "\<forall>k\<in>set (map fst m @ map fst (database b)).
                 map_of m k = map_option JSON_parse (map_of (database b) k)"
    show "\<forall>k. map_of m k = map_option JSON_parse (map_of (database b) k)"
    proof
      fix k
      show "map_of m k = map_option JSON_parse (map_of (database b) k)"
      proof (cases "k \<in> set (map fst m @ map fst (database b))")
        case True
        with a show ?thesis by blast
      next
        case False
        then have "map_of m k = None" "map_of (database b) k = None"
          by (simp_all add: map_of_eq_None_iff)
        then show ?thesis by simp
      qed
    qed
  qed blast
  with Some show ?thesis by (simp add: agree_def list_all_iff)
qed

lemma stored_image_iff:
  "stored_image b \<longleftrightarrow>
     (\<forall>m. map_mem b = Some m \<longrightarrow>
        (\<forall>k. map_of (database b) k = map_option JSON_stringify (map_of m k)))"
proof (cases "map_mem b")
  case None
  then show ?thesis by (simp add: stored_image_def)
next
  case (Some m)
  have "(\<forall>k\<in>set (map fst m @ map fst (database b)).
            map_of (database b) k = map_option JSON_stringify (map_of m k))
        \<longleftrightarrow> (\<forall>k. map_of (database b) k = map_option JSON_stringify (map_of m k))"
  proof
    assume a: "\<forall>k\<in>set (map fst m @ map fst (database b)).
                 map_of (database b) k = map_option JSON_stringify (map_of m k)"
    show "\<forall>k. map_of (database b) k = map_option JSON_stringify (map_of m k)"
    proof
      fix k
      show "map_of (database b) k = map_option JSON_stringify (map_of m k)"
      proof (cases "k \<in> set (map fst m @ map fst (database b))")
        case True
        with a show ?thesis by blast
      next
        case False
        then have "map_of m k = None" "map_of (database b) k = None"
          by (simp_all add: map_of_eq_None_iff)
        then show ?thesis by simp
      qed
    qed
  qed blast
  with Some show ?thesis by (simp add: stored_image_def list_all_iff)
qed

section \<open>Round trip of a whole value\<close>

text \<open>
  C5, as amended. For every text or numeric key \<open>K\<close> and every value \<open>V\<close>, \<^verbatim>\<open>set(K, V)\<close>
  returns, whatever the object held before. \<^verbatim>\<open>get(K)\<close> after it returns \<open>V\<close> itself
  when the object has the map, and what \<^verbatim>\<open>JSON.parse\<close> reads from the text
  \<^verbatim>\<open>JSON.stringify(V)\<close> when it has not. So \<^verbatim>\<open>get(K)\<close> returns \<open>V\<close>, with the map and
  without it, for every \<open>V\<close> that JSON has: a tree with no \<^verbatim>\<open>undefined\<close> and no hole in
  it whose numbers are finite and not \<^verbatim>\<open>-0\<close>.
\<close>

theorem set_get_roundtrip:
  assumes "typeof_string key \<or> typeof_number key"
  shows "fst (set_value b key V None) = Inr ()
       \<and> (is_json V \<longrightarrow> get (snd (set_value b key V None)) key None = Inr V)
       \<and> (map_mem b \<noteq> None \<longrightarrow> get (snd (set_value b key V None)) key None = Inr V)
       \<and> (map_mem b = None \<longrightarrow>
            get (snd (set_value b key V None)) key None = Inr (JSON_parse (JSON_stringify V)))"
proof -
  obtain k where k: "number_to_string key = KStr k"
    using assms number_to_string_cases by blast
  have nk: "key \<noteq> KNil" using assms by auto
  show ?thesis
    using assms k nk
    by (cases "map_mem b")
       (simp_all add: set_value_def get_def JSON_parse_stringify update_conv')
qed

theorem set_get_roundtrip_witness:
  "(typeof_string (KNum ''42'') \<or> typeof_number (KNum ''42''))
 \<and> is_json (Obj [(''name'', Str ''Ann''), (''tags'', Arr [Null, Number (Finite (3 / 2))])])
 \<and> map_mem (constructor [(''42'', SqlText (Num 1))] False) = None
 \<and> get (snd (set_value (constructor [(''42'', SqlText (Num 1))] False) (KNum ''42'')
              (Obj [(''name'', Str ''Ann''), (''tags'', Arr [Null, Number (Finite (3 / 2))])]) None))
       (KNum ''42'') None
     = Inr (Obj [(''name'', Str ''Ann''), (''tags'', Arr [Null, Number (Finite (3 / 2))])])
 \<and> map_mem (constructor [] True) \<noteq> None
 \<and> get (snd (set_value (constructor [] True) (KNum ''42'') (Arr [Number NaN, Undefined]) None))
       (KNum ''42'') None
     = Inr (Arr [Number NaN, Undefined])"
proof -
  have k: "typeof_string (KNum ''42'') \<or> typeof_number (KNum ''42'')" by simp
  have v: "is_json (Obj [(''name'', Str ''Ann''), (''tags'', Arr [Null, Number (Finite (3 / 2))])])"
    by simp
  have d: "map_mem (constructor [(''42'', SqlText (Num 1))] False) = None"
    by (simp add: constructor_def)
  have m: "map_mem (constructor [] True) \<noteq> None"
    by (simp add: constructor_def fetchEverything_def)
  show ?thesis
    using k v d m
      set_get_roundtrip[OF k, of "constructor [(''42'', SqlText (Num 1))] False"
        "Obj [(''name'', Str ''Ann''), (''tags'', Arr [Null, Number (Finite (3 / 2))])]"]
      set_get_roundtrip[OF k, of "constructor [] True" "Arr [Number NaN, Undefined]"]
    by blast
qed

text \<open>
  The claim as stated fails without the map: JSON has no \<^verbatim>\<open>NaN\<close> and no infinity. After
  \<^verbatim>\<open>set('k', NaN)\<close> on a new table \<^verbatim>\<open>get('k')\<close> returns \<^verbatim>\<open>null\<close>, and after
  \<^verbatim>\<open>set('k', {a: Infinity, b: -0})\<close> it returns \<^verbatim>\<open>{a: null, b: 0}\<close>.
\<close>

theorem set_get_roundtrip_counterexample:
  "fst (set_value (constructor [] False) (KStr ''k'') (Number NaN) None) = Inr ()
 \<and> get (snd (set_value (constructor [] False) (KStr ''k'') (Number NaN) None)) (KStr ''k'') None
     = Inr Null
 \<and> get (snd (set_value (constructor [] False) (KStr ''k'') (Number NaN) None)) (KStr ''k'') None
     \<noteq> Inr (Number NaN)
 \<and> get (snd (set_value (constructor [] False) (KStr ''k'')
              (Obj [(''a'', Number PosInfinity), (''b'', Number NegZero)]) None)) (KStr ''k'') None
     = Inr (Obj [(''a'', Null), (''b'', Num 0)])"
  by (simp add: facade_defs JSON_stringify_def SqlText_def)

section \<open>Errors come before any change\<close>

lemma set_value_throws: "set_value b key v path = (Inl e, b') \<Longrightarrow> b' = b"
  by (auto simp: set_value_def split: if_splits jskey.splits sum.splits option.splits)

lemma ensure_throws: "ensure b key d path = (Inl e, b') \<Longrightarrow> b' = b"
  by (auto simp: ensure_def split: if_splits sum.splits prod.splits dest: set_value_throws)

lemma delete_throws: "delete b key path = (Inl e, b') \<Longrightarrow> b' = b"
  by (auto simp: delete_def Let_def split: sum.splits prod.splits option.splits jskey.splits
       dest: set_value_throws)

lemma map_sum_Inl: "map_sum id f x = Inl e \<Longrightarrow> x = Inl e"
  by (cases x) auto

lemma exec_throws: "exec c b = (Inl e, b') \<Longrightarrow> b' = b"
  by (cases c)
     (auto split: prod.splits
        dest!: map_sum_Inl dest: set_value_throws ensure_throws delete_throws)

text \<open>
  C9. When the key of \<^verbatim>\<open>set\<close> is neither a string nor a number the call throws the
  invalid-key error, and when the default of \<^verbatim>\<open>ensure\<close> is \<^verbatim>\<open>null\<close> or \<^verbatim>\<open>undefined\<close> the
  call throws the missing-default error; in both cases the table and the map are what they
  were before the call. The same holds for any call of the facade that ends in one of
  the two errors, also when it is \<^verbatim>\<open>set\<close> inside \<^verbatim>\<open>ensure\<close> or \<^verbatim>\<open>delete\<close> that throws.
\<close>

theorem errors_before_mutation:
  "(\<not> typeof_string key \<and> \<not> typeof_number key \<longrightarrow>
      set_value b key v path = (Inl InvalidKey, b))
 \<and> (isNil d \<longrightarrow> ensure b key d path = (Inl MissingDefault, b))
 \<and> (fst (exec c b) = Inl InvalidKey \<or> fst (exec c b) = Inl MissingDefault \<longrightarrow>
      snd (exec c b) = b)"
proof -
  have "snd (exec c b) = b" if "fst (exec c b) = Inl e" for e
    using exec_throws[of c b e "snd (exec c b)"] that by (metis prod.collapse)
  then show ?thesis by (auto simp: set_value_def ensure_def)
qed

theorem errors_before_mutation_witness:
  "\<not> typeof_string (KBool True) \<and> \<not> typeof_number (KBool True)
 \<and> set_value (constructor [(''k'', SqlText (Num 1))] True) (KBool True) (Num 2) (Some [''a''])
     = (Inl InvalidKey, constructor [(''k'', SqlText (Num 1))] True)
 \<and> isNil Null
 \<and> ensure (constructor [(''k'', SqlText (Num 1))] True) (KBool True) Null (Some [''a''])
     = (Inl MissingDefault, constructor [(''k'', SqlText (Num 1))] True)
 \<and> fst (exec (Ensure KNil (Num 3) None) (constructor [(''k'', SqlText (Num 1))] True))
     = Inl InvalidKey
 \<and> snd (exec (Ensure KNil (Num 3) None) (constructor [(''k'', SqlText (Num 1))] True))
     = constructor [(''k'', SqlText (Num 1))] True"
proof -
  have e: "fst (exec (Ensure KNil (Num 3) None) (constructor [(''k'', SqlText (Num 1))] True))
     = Inl InvalidKey"
    by (simp add: facade_defs)
  show ?thesis
    using e errors_before_mutation[where key = "KBool True" and v = "Num 2" and d = Null
          and path = "Some [''a'']" and b = "constructor [(''k'', SqlText (Num 1))] True"
          and c = "Ensure KNil (Num 3) None"]
    by simp
qed

section \<open>The table is the image of the map\<close>

lemma set_value_shape:
  "set_value b key v path = (r, b') \<Longrightarrow>
     b' = b \<or> (\<exists>k w. b' = b\<lparr>database := AList.update k (JSON_stringify w) (database b),
                              map_mem := map_option (AList.update k w) (map_mem b)\<rparr>)"
  by (auto simp: set_value_def split: if_splits jskey.splits sum.splits option.splits)

lemma stored_image_update:
  assumes "stored_image b"
  shows "stored_image (b\<lparr>database := AList.update k (JSON_stringify w) (database b),
                          map_mem := map_option (AList.update k w) (map_mem b)\<rparr>)"
  using assms by (auto simp: stored_image_iff update_conv')

lemma stored_image_set_value:
  "stored_image b \<Longrightarrow> set_value b key v path = (r, b') \<Longrightarrow> stored_image b'"
  using set_value_shape[of b key v path r b']
  by (auto simp: stored_image_update)

lemma stored_image_ensure:
  "stored_image b \<Longrightarrow> ensure b key d path = (r, b') \<Longrightarrow> stored_image b'"
  by (auto simp: ensure_def split: sum.splits prod.splits if_splits
       dest: stored_image_set_value)

lemma stored_image_remove:
  "stored_image b \<Longrightarrow>
   stored_image (b\<lparr>map_mem := map_option (AList.delete k) (map_mem b),
                    database := AList.delete k (database b)\<rparr>)"
  by (auto simp: stored_image_iff delete_conv')

lemma stored_image_delete:
  "stored_image b \<Longrightarrow> delete b key path = (r, b') \<Longrightarrow> stored_image b'"
  by (auto simp: delete_def Let_def stored_image_remove
       split: sum.splits prod.splits option.splits jskey.splits
       dest: stored_image_set_value)

lemma stored_image_deleteAll: "stored_image (deleteAll b)"
  by (auto simp: stored_image_iff deleteAll_def)

lemma stored_image_exec: "stored_image b \<Longrightarrow> stored_image (snd (exec c b))"
  by (cases c)
     (auto simp: stored_image_deleteAll split: prod.splits
        dest: stored_image_set_value stored_image_ensure stored_image_delete)

lemma stored_image_constructor: "wf_table rows \<Longrightarrow> stored_image (constructor rows True)"
proof -
  assume wf: "wf_table rows"
  have "map_of rows k = map_option JSON_stringify (map_option JSON_parse (map_of rows k))" for k
    using wf_table_row[OF wf, of k] by (cases "map_of rows k") (auto simp: stringify_parse)
  then show ?thesis
    by (simp add: stored_image_iff constructor_def fetchEverything_def map_of_parsed)
qed

lemma stored_image_agree: "stored_image b \<Longrightarrow> mirror_json b \<Longrightarrow> agree b"
proof -
  assume si: "stored_image b" and mj: "mirror_json b"
  show ?thesis
    unfolding agree_iff
  proof (intro allI impI)
    fix m k
    assume m: "map_mem b = Some m"
    have eq: "map_of (database b) k = map_option JSON_stringify (map_of m k)"
      using si m by (simp add: stored_image_iff)
    show "map_of m k = map_option JSON_parse (map_of (database b) k)"
    proof (cases "map_of m k")
      case None
      with eq show ?thesis by simp
    next
      case (Some v)
      then have "is_json v"
        using mj m by (auto simp: mirror_json_def list_all_iff dest: map_of_SomeD)
      with eq Some show ?thesis by (simp add: JSON_parse_stringify)
    qed
  qed
qed

text \<open>
  C7, as amended. With the map, the table is the image of the map under
  \<^verbatim>\<open>JSON.stringify\<close>: this holds once the constructor has read a table of JSON texts, and
  every call of the facade inside the embedding (\<^verbatim>\<open>get\<close>, \<^verbatim>\<open>set\<close>, \<^verbatim>\<open>ensure\<close>,
  \<^verbatim>\<open>delete\<close>, \<^verbatim>\<open>deleteAll\<close>, \<^verbatim>\<open>indices\<close>), returning or throwing, keeps it. The map and
  the table then agree, as the claim has it, whenever the map holds only values that
  JSON has. They do not agree in general: where a value of the map has a hole
  or an \<^verbatim>\<open>undefined\<close>, the table has \<^verbatim>\<open>null\<close> or nothing.
\<close>

theorem mirror_serialised_in_store:
  "(wf_table rows \<longrightarrow> stored_image (constructor rows True))
 \<and> (stored_image b \<longrightarrow> fst (exec c b) \<noteq> Inl Unmodelled \<longrightarrow> stored_image (snd (exec c b)))
 \<and> (stored_image b \<longrightarrow> mirror_json b \<longrightarrow> agree b)"
  using stored_image_constructor stored_image_exec stored_image_agree by blast

theorem mirror_serialised_in_store_witness:
  "wf_table [(''k'', SqlText (Obj []))]
 \<and> stored_image (constructor [(''k'', SqlText (Obj []))] True)
 \<and> mirror_json (constructor [(''k'', SqlText (Obj []))] True)
 \<and> agree (constructor [(''k'', SqlText (Obj []))] True)
 \<and> fst (exec (Set (KStr ''k'') (Str ''x'') (Some [''tags'', ''1'']))
          (constructor [(''k'', SqlText (Obj []))] True)) \<noteq> Inl Unmodelled
 \<and> stored_image
      (snd (exec (Set (KStr ''k'') (Str ''x'') (Some [''tags'', ''1'']))
              (constructor [(''k'', SqlText (Obj []))] True)))"
proof -
  have wf: "wf_table [(''k'', SqlText (Obj []))]"
    by (simp add: wf_table_def SqlText_def)
  have mj: "mirror_json (constructor [(''k'', SqlText (Obj []))] True)"
    by (simp add: mirror_json_def constructor_def fetchEverything_def)
  have ne: "fst (exec (Set (KStr ''k'') (Str ''x'') (Some [''tags'', ''1'']))
          (constructor [(''k'', SqlText (Obj []))] True)) \<noteq> Inl Unmodelled"
    by (simp add: facade_defs lodash_defs JSON_stringify_def SqlText_def)
  show ?thesis
    using wf mj ne
      mirror_serialised_in_store[of "[(''k'', SqlText (Obj []))]"
        "constructor [(''k'', SqlText (Obj []))] True"
        "Set (KStr ''k'') (Str ''x'') (Some [''tags'', ''1''])"]
    by blast
qed

text \<open>
  The claim as stated fails: on a new table, \<^verbatim>\<open>set('k', 'x', 'tags.1')\<close> returns, the map
  then holds an array with a hole at index 0 and the table holds \<^verbatim>\<open>null\<close> there.
\<close>

theorem mirror_store_agreement_counterexample:
  "agree (constructor [] True)
 \<and> exec (Set (KStr ''k'') (Str ''x'') (Some [''tags'', ''1''])) (constructor [] True)
     = (Inr Void,
        \<lparr>database = [(''k'', SqlText (Obj [(''tags'', Arr [Null, Str ''x''])]))],
         map_mem = Some [(''k'', Obj [(''tags'', Arr [Undefined, Str ''x''])])]\<rparr>)
 \<and> \<not> agree (snd (exec (Set (KStr ''k'') (Str ''x'') (Some [''tags'', ''1'']))
                    (constructor [] True)))"
  by (simp add: agree_def facade_defs lodash_defs JSON_stringify_def SqlText_def)

section \<open>With the map and without it\<close>













section \<open>An array index has one numeral\<close>

lemma digit_of_bound: "digit_of c = Some d \<Longrightarrow> d \<le> 9"
  by (auto simp: digit_of_def split: if_splits)

lemma digit_of_inj: "digit_of c = Some d \<Longrightarrow> digit_of c' = Some d \<Longrightarrow> c = c'"
  by (auto simp: digit_of_def split: if_splits)

lemma digits_val_bounds:
  "digits_val a s = Some n \<Longrightarrow> a * 10 ^ length s \<le> n \<and> n < (a + 1) * 10 ^ length s"
proof (induction s arbitrary: a)
  case Nil
  then show ?case by simp
next
  case (Cons c s)
  then obtain d where d: "digit_of c = Some d" and r: "digits_val (10 * a + d) s = Some n"
    by (auto split: option.splits)
  have b: "(10 * a + d) * 10 ^ length s \<le> n" "n < (10 * a + d + 1) * 10 ^ length s"
    using Cons.IH[OF r] by simp_all
  have d9: "d \<le> 9" using d by (rule digit_of_bound)
  have lo: "a * 10 ^ length (c # s) \<le> (10 * a + d) * 10 ^ length s"
    by (simp add: algebra_simps)
  have "10 * a + d + 1 \<le> (a + 1) * 10" using d9 by simp
  then have "(10 * a + d + 1) * 10 ^ length s \<le> ((a + 1) * 10) * 10 ^ length s"
    by (rule mult_le_mono1)
  then have hi: "(10 * a + d + 1) * 10 ^ length s \<le> (a + 1) * 10 ^ length (c # s)"
    by (simp add: algebra_simps)
  show ?case using b lo hi by linarith
qed

lemma digits_val_inj_same_length:
  "length s = length t \<Longrightarrow> digits_val a s = Some n \<Longrightarrow> digits_val a t = Some n \<Longrightarrow> s = t"
proof (induction s arbitrary: a t)
  case Nil
  then show ?case by simp
next
  case (Cons c s)
  then obtain c' t' where t: "t = c' # t'" "length s = length t'"
    by (cases t) auto
  obtain d where d: "digit_of c = Some d" and r: "digits_val (10 * a + d) s = Some n"
    using Cons.prems(2) by (auto split: option.splits)
  obtain d' where d': "digit_of c' = Some d'" and r': "digits_val (10 * a + d') t' = Some n"
    using Cons.prems(3) t by (auto split: option.splits)
  have b: "(10 * a + d) * 10 ^ length s \<le> n" "n < (10 * a + d + 1) * 10 ^ length s"
    using digits_val_bounds[OF r] by simp_all
  have b': "(10 * a + d') * 10 ^ length s \<le> n" "n < (10 * a + d' + 1) * 10 ^ length s"
    using digits_val_bounds[OF r'] t by simp_all
  have "d = d'"
  proof (rule ccontr)
    assume ne: "d \<noteq> d'"
    show False
    proof (cases "d < d'")
      case True
      then have "10 * a + d + 1 \<le> 10 * a + d'" by simp
      then have "(10 * a + d + 1) * 10 ^ length s \<le> (10 * a + d') * 10 ^ length s"
        by (rule mult_le_mono1)
      with b b' show False by linarith
    next
      case False
      with ne have "10 * a + d' + 1 \<le> 10 * a + d" by simp
      then have "(10 * a + d' + 1) * 10 ^ length s \<le> (10 * a + d) * 10 ^ length s"
        by (rule mult_le_mono1)
      with b b' show False by linarith
    qed
  qed
  then have "c = c'" using d d' digit_of_inj by simp
  moreover have "s = t'" using Cons.IH[OF t(2) r] r' \<open>d = d'\<close> by simp
  ultimately show ?case using t by simp
qed

lemma reIsUint_lower:
  assumes "reIsUint s = Some n" "2 \<le> length s"
  shows "10 ^ (length s - 1) \<le> n"
proof -
  obtain c cs where s: "s = c # cs" using assms(2) by (cases s) auto
  then have cs: "cs \<noteq> []" using assms(2) by auto
  then have c0: "c \<noteq> CHR ''0''" and dv: "digits_val 0 s = Some n"
    using assms(1) s by (auto simp: reIsUint_def split: if_splits)
  obtain d where d: "digit_of c = Some d" and r: "digits_val d cs = Some n"
    using dv s by (auto split: option.splits)
  have "d \<noteq> 0" using d c0 by (auto simp: digit_of_def split: if_splits)
  then have "1 \<le> d" by simp
  then have "1 * 10 ^ length cs \<le> d * 10 ^ length cs"
    by (rule mult_le_mono1)
  then have "10 ^ length cs \<le> d * 10 ^ length cs" by simp
  moreover have "d * 10 ^ length cs \<le> n" using digits_val_bounds[OF r] by simp
  ultimately have "10 ^ length cs \<le> n" by (rule le_trans)
  then show ?thesis using s by simp
qed

lemma reIsUint_digits: "reIsUint s = Some n \<Longrightarrow> digits_val 0 s = Some n \<and> s \<noteq> []"
  by (auto simp: reIsUint_def split: list.splits if_splits)

lemma reIsUint_shorter:
  assumes "reIsUint s = Some n" "reIsUint t = Some n" "length s < length t"
  shows False
proof -
  have s: "digits_val 0 s = Some n" "s \<noteq> []" using reIsUint_digits[OF assms(1)] by simp_all
  have "n < 10 ^ length s" using digits_val_bounds[OF s(1)] by simp
  moreover have "2 \<le> length t" using assms(3) s(2) by (cases s) auto
  then have "10 ^ (length t - 1) \<le> n" using reIsUint_lower[OF assms(2)] by simp
  moreover have "(10::nat) ^ length s \<le> 10 ^ (length t - 1)"
    using assms(3) by (intro power_increasing) auto
  ultimately show False by linarith
qed

lemma reIsUint_inj: "reIsUint s = Some n \<Longrightarrow> reIsUint t = Some n \<Longrightarrow> s = t"
proof -
  assume a: "reIsUint s = Some n" "reIsUint t = Some n"
  have "length s = length t"
    using reIsUint_shorter[OF a] reIsUint_shorter[OF a(2,1)] by (meson linorder_neqE_nat)
  then show "s = t"
    using digits_val_inj_same_length reIsUint_digits[OF a(1)] reIsUint_digits[OF a(2)] by blast
qed

lemma array_index_inj: "array_index k = Some i \<Longrightarrow> array_index k' = Some i \<Longrightarrow> k = k'"
  by (auto simp: array_index_def split: option.splits if_splits dest: reIsUint_inj)

section \<open>One property\<close>

lemma arr_put_nth: "arr_put xs i x ! i = x"
  by (simp add: arr_put_def nth_append)

lemma arr_put_length: "i < length (arr_put xs i x)"
  by (simp add: arr_put_def)

lemma arr_put_other: "j < length xs \<Longrightarrow> j \<noteq> i \<Longrightarrow> arr_put xs i x ! j = xs ! j"
  by (simp add: arr_put_def nth_append)

lemma arr_put_keeps: "j < length xs \<Longrightarrow> j < length (arr_put xs i x)"
  by (simp add: arr_put_def)

lemma setProp_isObject: "setProp v k x = Inr w \<Longrightarrow> isObject v \<Longrightarrow> isObject w"
  by (cases v) (auto split: option.splits)

lemma map_of_jsonified:
  "map_of kvs k = Some x \<Longrightarrow> x \<noteq> Undefined \<Longrightarrow>
     map_of (map (\<lambda>(k, v). (k, jsonify v)) (filter (\<lambda>(k, v). v \<noteq> Undefined) kvs)) k
       = Some (jsonify x)"
  by (induction kvs) (auto split: if_splits)

lemma isObject_jsonify: "isObject w \<Longrightarrow> isObject (jsonify w)"
  by (cases w) auto

lemma isObject_not_nil: "isObject w \<Longrightarrow> \<not> isNil w"
  by (cases w) auto

lemma baseSet_loop_isObject:
  "baseSet_loop v P L = Inr w \<Longrightarrow> isObject v \<Longrightarrow> P \<noteq> [] \<Longrightarrow> isObject w"
  by (induction v P L rule: baseSet_loop.induct)
     (auto simp: Let_def split: if_splits sum.splits dest: setProp_isObject)

section \<open>What the path write leaves alone\<close>

lemma node_at_setProp_other:
  "setProp v k y = Inr w \<Longrightarrow> b \<noteq> k \<Longrightarrow> node_at v (b # Q) = Some x \<Longrightarrow>
     node_at w (b # Q) = Some x"
proof (cases v)
  case (Arr xs)
  assume a: "setProp v k y = Inr w" "b \<noteq> k" "node_at v (b # Q) = Some x"
  obtain i where i: "array_index k = Some i" and w: "w = Arr (arr_put xs i y)"
    using a(1) Arr by (auto split: option.splits)
  obtain j where j: "array_index b = Some j" "j < length xs" "node_at (xs ! j) Q = Some x"
    using a(3) Arr by (auto split: option.splits if_splits)
  have "j \<noteq> i" using array_index_inj[OF j(1)] i a(2) by auto
  then show ?thesis
    using w j by (simp add: arr_put_other arr_put_keeps)
qed (auto simp: update_conv' split: option.splits)

lemma node_at_setProp_same:
  "setProp v k y = Inr w \<Longrightarrow> isObject v \<Longrightarrow> node_at w (k # Q) = node_at y Q"
  by (cases v) (auto simp: update_conv' arr_put_nth arr_put_length split: option.splits)

lemma node_at_child:
  assumes "node_at v (k # Q) = Some x" "Q \<noteq> []"
  shows "isObject (getProp v k) \<and> node_at (getProp v k) Q = Some x"
proof -
  obtain q Q' where Q: "Q = q # Q'" using assms(2) by (cases Q) auto
  have inner: "node_at c (q # Q') = Some x \<Longrightarrow> isObject c" for c
    by (cases c) auto
  show ?thesis
    using assms(1) inner unfolding Q
    by (cases v) (auto split: option.splits if_splits)
qed

lemma baseSet_loop_frame:
  "baseSet_loop v P L = Inr w \<Longrightarrow> isObject v \<Longrightarrow> diverge P Q \<Longrightarrow>
   node_at v Q = Some x \<Longrightarrow> node_at w Q = Some x"
proof (induction v P L arbitrary: w Q rule: baseSet_loop.induct)
  case (1 nested v)
  then show ?case by simp
next
  case (2 nested k v)
  then obtain b Q' where Q: "Q = b # Q'" and ne: "k \<noteq> b"
    by (cases Q) auto
  show ?case
  proof (cases "reserved_key k")
    case True
    with 2 show ?thesis by simp
  next
    case False
    with 2 have s: "setProp nested k v = Inr w" by simp
    show ?thesis
      using node_at_setProp_other[OF s] ne 2(4) Q by auto
  qed
next
  case (3 nested k k' ks v)
  obtain b Q' where Q: "Q = b # Q'" and dv: "k \<noteq> b \<or> diverge (k' # ks) Q'"
    using 3(4) by (cases Q) auto
  show ?case
  proof (cases "reserved_key k")
    case True
    with 3 show ?thesis by simp
  next
    case nr: False
    let ?nv = "if isObject (getProp nested k) then getProp nested k
               else if isIndex k' then Arr [] else Obj []"
    obtain u child where u: "setProp nested k ?nv = Inr u"
      and c: "baseSet_loop ?nv (k' # ks) v = Inr child"
      and s: "setProp nested k child = Inr w"
      using 3(2) nr by (auto simp: Let_def split: sum.splits)
    show ?thesis
    proof (cases "k = b")
      case False
      then show ?thesis
        using node_at_setProp_other[OF s, of b Q' x] 3(5) Q by auto
    next
      case True
      then have d: "diverge (k' # ks) Q'" using dv by simp
      then have Q'ne: "Q' \<noteq> []" by (cases Q') auto
      have ch: "isObject (getProp nested k)" "node_at (getProp nested k) Q' = Some x"
        using node_at_child[of nested k Q' x] 3(5) Q True Q'ne by auto
      then have at: "node_at ?nv Q' = Some x" by simp
      have nvo: "isObject ?nv" by simp
      have "node_at child Q' = Some x"
        by (rule "3.IH"[OF nr refl refl u c nvo d at])
      then show ?thesis
        using node_at_setProp_same[OF s 3(3), of Q'] Q True by simp
    qed
  qed
qed

lemma node_at_read: "node_at w Q = Some x \<Longrightarrow> Q \<noteq> [] \<Longrightarrow> baseGet_loop w Q = x"
proof (induction w Q rule: node_at.induct)
  case (2 kvs k ks)
  then obtain c where c: "map_of kvs k = Some c" "node_at c ks = Some x"
    by (auto split: option.splits)
  show ?case
  proof (cases "ks = []")
    case True
    with c show ?thesis by simp
  next
    case False
    then show ?thesis using 2(1)[OF c(1) c(2) False] c by simp
  qed
next
  case (3 xs k ks)
  then obtain i where i: "array_index k = Some i" "i < length xs" "node_at (xs ! i) ks = Some x"
    by (auto split: option.splits if_splits)
  show ?case
  proof (cases "ks = []")
    case True
    with i show ?thesis by simp
  next
    case False
    then show ?thesis using 3(1)[OF i(1) i(2) i(3) False] i by simp
  qed
qed simp_all

lemma node_at_defined:
  "node_at c ks = Some x \<Longrightarrow> x \<noteq> Undefined \<Longrightarrow> c \<noteq> Undefined"
  by (cases ks) auto

lemma node_at_jsonify:
  "node_at w Q = Some x \<Longrightarrow> x \<noteq> Undefined \<Longrightarrow> node_at (jsonify w) Q = Some (jsonify x)"
proof (induction w Q rule: node_at.induct)
  case (2 kvs k ks)
  then obtain c where c: "map_of kvs k = Some c" "node_at c ks = Some x"
    by (auto split: option.splits)
  have cu: "c \<noteq> Undefined" using node_at_defined[OF c(2) 2(3)] .
  show ?case
    using 2(1)[OF c(1) c(2) 2(3)] map_of_jsonified[OF c(1) cu] by simp
next
  case (3 xs k ks)
  then obtain i where i: "array_index k = Some i" "i < length xs" "node_at (xs ! i) ks = Some x"
    by (auto split: option.splits if_splits)
  show ?case
    using 3(1)[OF i(1) i(2) i(3) 3(3)] i by simp
qed simp_all

lemma node_at_json: "node_at v Q = Some x \<Longrightarrow> is_json v \<Longrightarrow> is_json x"
proof (induction v Q rule: node_at.induct)
  case (2 kvs k ks)
  then obtain c where c: "map_of kvs k = Some c" "node_at c ks = Some x"
    by (auto split: option.splits)
  have "is_json c" using 2(3) map_of_SomeD[OF c(1)] by (auto simp: list_all_iff)
  then show ?case using 2(1)[OF c(1) c(2)] by simp
next
  case (3 xs k ks)
  then obtain i where i: "array_index k = Some i" "i < length xs" "node_at (xs ! i) ks = Some x"
    by (auto split: option.splits if_splits)
  have "is_json (xs ! i)" using 3(3) i(2) by (auto simp: list_all_iff)
  then show ?case using 3(1)[OF i(1) i(2) i(3)] by simp
qed simp_all

lemma diverge_nonempty: "diverge P Q \<Longrightarrow> Q \<noteq> []"
  by (cases P; cases Q) auto

lemma node_at_nil: "isNil r \<Longrightarrow> Q \<noteq> [] \<Longrightarrow> node_at r Q = None"
  by (cases r; cases Q) auto

section \<open>The path write returns, and what it puts at the path\<close>

lemma setProp_returns:
  "isObject v \<Longrightarrow> addresses_by_index v (k # ks) \<Longrightarrow> \<exists>w. setProp v k x = Inr w"
  by (cases v) auto

lemma addresses_by_index_child:
  assumes "isObject v" "addresses_by_index v (k # k' # ks)"
  shows "addresses_by_index
           (if isObject (getProp v k) then getProp v k
            else if isIndex k' then Arr [] else Obj []) (k' # ks)"
proof -
  have ch: "addresses_by_index (getProp v k) (k' # ks)"
    using assms by (cases v) auto
  show ?thesis
  proof (cases "isObject (getProp v k)")
    case True
    then show ?thesis using ch by simp
  next
    case False
    then have "(isIndex k' \<longrightarrow> array_index k' \<noteq> None) \<and> addresses_by_index Undefined ks"
      using ch by (cases "getProp v k") auto
    then show ?thesis using False by auto
  qed
qed

lemma baseSet_loop_returns:
  "isObject v \<Longrightarrow> addresses_by_index v P \<Longrightarrow> \<exists>w. baseSet_loop v P L = Inr w"
proof (induction v P L rule: baseSet_loop.induct)
  case (1 nested v)
  then show ?case by simp
next
  case (2 nested k v)
  then show ?case using setProp_returns[of nested k "[]" v] by auto
next
  case (3 nested k k' ks v)
  let ?nv = "if isObject (getProp nested k) then getProp nested k
             else if isIndex k' then Arr [] else Obj []"
  show ?case
  proof (cases "reserved_key k")
    case True
    then show ?thesis by simp
  next
    case nr: False
    obtain u where u: "setProp nested k ?nv = Inr u"
      using setProp_returns[OF 3(2,3)] by blast
    have nvo: "isObject ?nv" by simp
    have ab: "addresses_by_index ?nv (k' # ks)"
      using addresses_by_index_child[OF 3(2,3)] .
    obtain child where c: "baseSet_loop ?nv (k' # ks) v = Inr child"
      using "3.IH"[OF nr refl refl u nvo ab] by blast
    obtain w where "setProp nested k child = Inr w"
      using setProp_returns[OF 3(2,3)] by blast
    then show ?thesis using nr u c by (simp add: Let_def)
  qed
qed

lemma baseSet_loop_node:
  "baseSet_loop v P L = Inr w \<Longrightarrow> isObject v \<Longrightarrow> P \<noteq> [] \<Longrightarrow>
   \<forall>k\<in>set P. \<not> reserved_key k \<Longrightarrow> node_at w P = Some L"
proof (induction v P L arbitrary: w rule: baseSet_loop.induct)
  case (1 nested v)
  then show ?case by simp
next
  case (2 nested k v)
  then have s: "setProp nested k v = Inr w" by simp
  show ?case using node_at_setProp_same[OF s 2(2), of "[]"] by simp
next
  case (3 nested k k' ks v)
  let ?nv = "if isObject (getProp nested k) then getProp nested k
             else if isIndex k' then Arr [] else Obj []"
  have nr: "\<not> reserved_key k" using 3(5) by simp
  obtain u child where u: "setProp nested k ?nv = Inr u"
    and c: "baseSet_loop ?nv (k' # ks) v = Inr child"
    and s: "setProp nested k child = Inr w"
    using 3(2) nr by (auto simp: Let_def split: sum.splits)
  have nvo: "isObject ?nv" by simp
  have "node_at child (k' # ks) = Some v"
    using "3.IH"[OF nr refl refl u c nvo] 3(5) by simp
  then show ?case using node_at_setProp_same[OF s 3(3), of "k' # ks"] by simp
qed

lemma read_row_json:
  assumes "map_mem b = None" "getValueObjectAtKey b (KStr k) = Inr r" "\<not> isNil r"
  shows "is_json r"
proof -
  obtain t where t: "map_of (database b) k = Some t" "r = JSON_parse t"
    using assms by (auto split: option.splits)
  then show ?thesis by (cases t) (auto simp: is_json_of_json)
qed

lemma not_scalar_root: "\<not> is_scalar r \<Longrightarrow> isObject (if isNil r then Obj [] else r)"
  by (cases r) auto

text \<open>
  X6. Let the key be a string or a number, let the value \<^verbatim>\<open>get(K)\<close> returns be absent,
  \<^verbatim>\<open>null\<close>, an array or an object, let the path be non-empty, of plain keys, addressing
  sequences by index, and let \<open>L\<close> be a value that JSON has. Then \<^verbatim>\<open>set(K, L, P)\<close>
  returns, \<^verbatim>\<open>get(K, P)\<close> after it returns \<open>L\<close>, the whole value \<^verbatim>\<open>get(K)\<close> returns has
  \<open>L\<close> at \<open>P\<close>, and every part of the value stored before, at a location that parts
  ways with \<open>P\<close>, is still there and is what \<^verbatim>\<open>get\<close> returns for that location.
\<close>

theorem set_path_then_get:
  assumes key: "typeof_string key \<or> typeof_number key"
    and root: "get b key None = Inr r" "\<not> is_scalar r"
    and path: "P \<noteq> []" "\<forall>k\<in>set P. plain_key k"
      "addresses_by_index (if isNil r then Obj [] else r) P"
    and leaf: "is_json L"
  shows "\<exists>b' v'. set_value b key L (Some P) = (Inr (), b')
       \<and> get b' key (Some P) = Inr L
       \<and> get b' key None = Inr v' \<and> node_at v' P = Some L
       \<and> (\<forall>Q x. diverge P Q \<longrightarrow> node_at r Q = Some x \<longrightarrow>
             node_at v' Q = Some x \<and> get b' key (Some Q) = Inr x)"
proof -
  obtain k where k: "number_to_string key = KStr k"
    using key number_to_string_cases by blast
  have nk: "key \<noteq> KNil" using key by auto
  have rd: "getValueObjectAtKey b (KStr k) = Inr r"
    using root(1) k nk by (simp add: get_def split: sum.splits)
  let ?v0 = "if isNil r then Obj [] else r"
  have v0: "isObject ?v0" using root(2) by (rule not_scalar_root)
  then have v0n: "\<not> isNil ?v0" by (rule isObject_not_nil)
  obtain w where w: "baseSet_loop ?v0 P L = Inr w"
    using baseSet_loop_returns[OF v0 path(3)] by blast
  define b' where "b' = b\<lparr>database := AList.update k (JSON_stringify w) (database b),
                     map_mem := map_option (AList.update k w) (map_mem b)\<rparr>"
  have ret: "set_value b key L (Some P) = (Inr (), b')"
    using key k rd v0 v0n w
    by (simp add: set_value_def lodash_set_def baseSet_def b'_def)
  have wo: "isObject w" using baseSet_loop_isObject[OF w v0 path(1)] .
  then have wn: "\<not> isNil w" by (rule isObject_not_nil)
  have wu: "w \<noteq> Undefined" using wo by auto
  have Lu: "L \<noteq> Undefined" using leaf by auto
  have nr: "\<forall>k\<in>set P. \<not> reserved_key k" using path(2) by (simp add: plain_key_def)
  have wP: "node_at w P = Some L" using baseSet_loop_node[OF w v0 path(1) nr] .
  have frame: "node_at w Q = Some x" if "diverge P Q" "node_at r Q = Some x" for Q x
  proof -
    have "Q \<noteq> []" using that(1) by (rule diverge_nonempty)
    then have "\<not> isNil r" using node_at_nil[of r Q] that(2) by auto
    then show ?thesis using baseSet_loop_frame[OF w v0 that(1)] that(2) by simp
  qed
  show ?thesis
  proof (cases "map_mem b")
    case (Some m)
    have rd': "getValueObjectAtKey b' (KStr k) = Inr w"
      using Some by (simp add: update_conv' b'_def)
    have whole: "get b' key None = Inr w"
      using rd' k nk by (simp add: get_def)
    have g: "get b' key (Some Q) = Inr (baseGet_loop w Q)" if "Q \<noteq> []" for Q
      using rd' k nk wn that by (simp add: get_def lodash_get_def baseGet_def)
    have "get b' key (Some P) = Inr L"
      using g[OF path(1)] node_at_read[OF wP path(1)] by simp
    moreover have "node_at w Q = Some x \<and> get b' key (Some Q) = Inr x"
      if "diverge P Q" "node_at r Q = Some x" for Q x
      using g[OF diverge_nonempty[OF that(1)]] frame[OF that]
        node_at_read[OF frame[OF that] diverge_nonempty[OF that(1)]] by simp
    ultimately show ?thesis using ret whole wP by blast
  next
    case None
    have rd': "getValueObjectAtKey b' (KStr k) = Inr (jsonify w)"
      using None wu by (simp add: update_conv' JSON_stringify_def b'_def)
    have whole: "get b' key None = Inr (jsonify w)"
      using rd' k nk by (simp add: get_def)
    have jn: "\<not> isNil (jsonify w)" using wo isObject_jsonify isObject_not_nil by blast
    have g: "get b' key (Some Q) = Inr (baseGet_loop (jsonify w) Q)" if "Q \<noteq> []" for Q
      using rd' k nk jn that by (simp add: get_def lodash_get_def baseGet_def)
    have jP: "node_at (jsonify w) P = Some L"
      using node_at_jsonify[OF wP Lu] jsonify_id[OF leaf] by simp
    have "get b' key (Some P) = Inr L"
      using g[OF path(1)] node_at_read[OF jP path(1)] by simp
    moreover have "node_at (jsonify w) Q = Some x \<and> get b' key (Some Q) = Inr x"
      if "diverge P Q" "node_at r Q = Some x" for Q x
    proof -
      have Qn: "Q \<noteq> []" using that(1) by (rule diverge_nonempty)
      then have rn: "\<not> isNil r" using node_at_nil[of r Q] that(2) by auto
      have "is_json r" using read_row_json[OF None rd rn] .
      then have xj: "is_json x" using node_at_json[OF that(2)] by simp
      then have xu: "x \<noteq> Undefined" by auto
      have at: "node_at (jsonify w) Q = Some x"
        using node_at_jsonify[OF frame[OF that] xu] jsonify_id[OF xj] by simp
      then show ?thesis using g[OF Qn] node_at_read[OF at Qn] by simp
    qed
    ultimately show ?thesis using ret whole jP by blast
  qed
qed

theorem set_path_then_get_witness:
  "(typeof_string (KStr ''user:1'') \<or> typeof_number (KStr ''user:1''))
 \<and> get (constructor [(''user:1'', SqlText (Obj [(''name'', Str ''Ann''), (''score'', Num 5)]))] False)
       (KStr ''user:1'') None
     = Inr (Obj [(''name'', Str ''Ann''), (''score'', Num 5)])
 \<and> \<not> is_scalar (Obj [(''name'', Str ''Ann''), (''score'', Num 5)])
 \<and> plain_key ''tags'' \<and> plain_key ''0''
 \<and> addresses_by_index (Obj [(''name'', Str ''Ann''), (''score'', Num 5)]) [''tags'', ''0'']
 \<and> is_json (Str ''x'')
 \<and> diverge [''tags'', ''0''] [''name'']
 \<and> node_at (Obj [(''name'', Str ''Ann''), (''score'', Num 5)]) [''name''] = Some (Str ''Ann'')
 \<and> fst (set_value
          (constructor [(''user:1'', SqlText (Obj [(''name'', Str ''Ann''), (''score'', Num 5)]))] False)
          (KStr ''user:1'') (Str ''x'') (Some [''tags'', ''0''])) = Inr ()
 \<and> get (snd (set_value
          (constructor [(''user:1'', SqlText (Obj [(''name'', Str ''Ann''), (''score'', Num 5)]))] False)
          (KStr ''user:1'') (Str ''x'') (Some [''tags'', ''0''])))
       (KStr ''user:1'') (Some [''tags'', ''0'']) = Inr (Str ''x'')
 \<and> get (snd (set_value
          (constructor [(''user:1'', SqlText (Obj [(''name'', Str ''Ann''), (''score'', Num 5)]))] False)
          (KStr ''user:1'') (Str ''x'') (Some [''tags'', ''0''])))
       (KStr ''user:1'') (Some [''name'']) = Inr (Str ''Ann'')"
proof -
  let ?r = "Obj [(''name'', Str ''Ann''), (''score'', Num 5)]"
  let ?b = "constructor [(''user:1'', SqlText ?r)] False"
  let ?key = "KStr ''user:1''"
  let ?P = "[''tags'', ''0'']"
  have key: "typeof_string ?key \<or> typeof_number ?key" by simp
  have root: "get ?b ?key None = Inr ?r" "\<not> is_scalar ?r"
    by (simp_all add: get_def constructor_def)
  have nr: "plain_key ''tags''" "plain_key ''0''"
    by (simp_all add: plain_key_def reserved_key_def inherited_names_def)
  then have path: "?P \<noteq> []" "\<forall>k\<in>set ?P. plain_key k" by simp_all
  have ab: "addresses_by_index ?r ?P"
    by (simp add: isIndex_def array_index_def reIsUint_def digit_of_def)
  then have ab': "addresses_by_index (if isNil ?r then Obj [] else ?r) ?P" by simp
  have leaf: "is_json (Str ''x'')" by simp
  have dv: "diverge ?P [''name'']" by simp
  have at: "node_at ?r [''name''] = Some (Str ''Ann'')" by simp
  from set_path_then_get[OF key root path ab' leaf]
  obtain b' v' where r: "set_value ?b ?key (Str ''x'') (Some ?P) = (Inr (), b')"
    "get b' ?key (Some ?P) = Inr (Str ''x'')"
    "\<forall>Q x. diverge ?P Q \<longrightarrow> node_at ?r Q = Some x \<longrightarrow>
        node_at v' Q = Some x \<and> get b' ?key (Some Q) = Inr x"
    by blast
  have "get b' ?key (Some [''name'']) = Inr (Str ''Ann'')"
    using r(3) dv at by blast
  then show ?thesis
    using key root nr ab leaf dv at r(1,2) by simp
qed

section \<open>A path write on a primitive\<close>

lemma lodash_set_scalar: "is_scalar v \<Longrightarrow> lodash_set v p x = Inr v"
  by (cases v) (simp_all add: lodash_set_def baseSet_def)

lemma is_scalar_json: "is_scalar v \<Longrightarrow> JSON_stringify v = SqlText v"
  by (cases v) (simp_all add: JSON_stringify_def)

lemma is_scalar_not_nil: "is_scalar v \<Longrightarrow> \<not> isNil v"
  by (cases v) simp_all

lemma read_scalar_map:
  "map_mem b = Some m \<Longrightarrow> getValueObjectAtKey b (KStr k) = Inr v \<Longrightarrow> is_scalar v \<Longrightarrow>
     map_of m k = Some v"
  by (auto split: option.splits)

lemma read_scalar_row:
  "map_mem b = None \<Longrightarrow> getValueObjectAtKey b (KStr k) = Inr v \<Longrightarrow> is_scalar v \<Longrightarrow>
     map_of (database b) k = Some (SqlText v)"
proof -
  assume a: "map_mem b = None" "getValueObjectAtKey b (KStr k) = Inr v" "is_scalar v"
  then obtain t where t: "map_of (database b) k = Some t" "v = JSON_parse t"
    by (auto split: option.splits)
  with a(3) show ?thesis by (cases t) (auto simp: SqlText_def to_json_of_json)
qed

text \<open>
  C10. Let the key be a string or a number and \<open>v\<close> the value \<^verbatim>\<open>get(K)\<close> returns. If \<open>v\<close>
  is a number, a string or a boolean, then \<^verbatim>\<open>set(K, L, P)\<close> returns for every path and
  every \<open>L\<close>, writes \<open>v\<close> itself back to the row of the key and changes nothing else:
  \<^verbatim>\<open>get(K)\<close> still returns \<open>v\<close>, and without the map the object is what it was. If \<open>v\<close>
  is absent or \<^verbatim>\<open>null\<close>, the value written is what \<^verbatim>\<open>_.set\<close> makes of a new \<^verbatim>\<open>{}\<close>.
\<close>

theorem set_path_on_scalar_root:
  assumes "typeof_string key \<or> typeof_number key" and "get b key None = Inr v"
  shows "(is_scalar v \<longrightarrow>
            (\<exists>k. number_to_string key = KStr k
               \<and> set_value b key L (Some P)
                   = (Inr (), b\<lparr>database := AList.update k (SqlText v) (database b)\<rparr>))
          \<and> get (snd (set_value b key L (Some P))) key None = Inr v
          \<and> (map_mem b = None \<longrightarrow> snd (set_value b key L (Some P)) = b))
       \<and> (isNil v \<longrightarrow>
            (\<exists>k. number_to_string key = KStr k
               \<and> (\<forall>w. lodash_set (Obj []) P L = Inr w \<longrightarrow>
                     set_value b key L (Some P)
                       = (Inr (), b\<lparr>database := AList.update k (JSON_stringify w) (database b),
                                    map_mem := map_option (AList.update k w) (map_mem b)\<rparr>))))"
proof -
  obtain k where k: "number_to_string key = KStr k"
    using assms(1) number_to_string_cases by blast
  have nk: "key \<noteq> KNil" using assms(1) by auto
  have rd: "getValueObjectAtKey b (KStr k) = Inr v"
    using assms(2) k nk by (simp add: get_def split: sum.splits)
  have scalar: "set_value b key L (Some P)
                   = (Inr (), b\<lparr>database := AList.update k (SqlText v) (database b)\<rparr>)"
    and same: "map_mem b = None \<Longrightarrow> snd (set_value b key L (Some P)) = b"
    if sc: "is_scalar v"
  proof -
    have upd: "map_option (AList.update k v) (map_mem b) = map_mem b"
    proof (cases "map_mem b")
      case None then show ?thesis by simp
    next
      case (Some m)
      then show ?thesis using read_scalar_map[OF Some rd sc] by (simp add: update_triv)
    qed
    show s: "set_value b key L (Some P)
                   = (Inr (), b\<lparr>database := AList.update k (SqlText v) (database b)\<rparr>)"
      using assms(1) k rd sc upd
      by (simp add: set_value_def lodash_set_scalar is_scalar_json is_scalar_not_nil)
    show "snd (set_value b key L (Some P)) = b" if "map_mem b = None"
      using s read_scalar_row[OF that rd sc] by (simp add: update_triv)
  qed
  have after: "get (snd (set_value b key L (Some P))) key None = Inr v" if sc: "is_scalar v"
  proof (cases "map_mem b")
    case None
    then show ?thesis using same[OF sc None] assms(2) by simp
  next
    case (Some m)
    then show ?thesis using scalar[OF sc] rd k nk
      by (simp add: get_def)
  qed
  have nil: "set_value b key L (Some P)
                       = (Inr (), b\<lparr>database := AList.update k (JSON_stringify w) (database b),
                                    map_mem := map_option (AList.update k w) (map_mem b)\<rparr>)"
    if "isNil v" "lodash_set (Obj []) P L = Inr w" for w
    using assms(1) k rd that by (simp add: set_value_def)
  show ?thesis using k scalar same after nil by blast
qed

theorem set_path_on_scalar_root_witness:
  "(typeof_string (KNum ''7'') \<or> typeof_number (KNum ''7''))
 \<and> get (constructor [(''7'', SqlText (Num 5))] False) (KNum ''7'') None = Inr (Num 5)
 \<and> is_scalar (Num 5)
 \<and> map_mem (constructor [(''7'', SqlText (Num 5))] False) = None
 \<and> set_value (constructor [(''7'', SqlText (Num 5))] False) (KNum ''7'') (Str ''x'') (Some [''a'', ''b''])
     = (Inr (), constructor [(''7'', SqlText (Num 5))] False)
 \<and> get (constructor [] True) (KStr ''k'') None = Inr Undefined
 \<and> isNil Undefined
 \<and> lodash_set (Obj []) [''a'', ''b''] (Str ''x'') = Inr (Obj [(''a'', Obj [(''b'', Str ''x'')])])
 \<and> set_value (constructor [] True) (KStr ''k'') (Str ''x'') (Some [''a'', ''b''])
     = (Inr (),
        \<lparr>database = [(''k'', SqlText (Obj [(''a'', Obj [(''b'', Str ''x'')])]))],
         map_mem = Some [(''k'', Obj [(''a'', Obj [(''b'', Str ''x'')])])]\<rparr>)"
proof -
  let ?b = "constructor [(''7'', SqlText (Num 5))] False"
  have key: "typeof_string (KNum ''7'') \<or> typeof_number (KNum ''7'')" by simp
  have root: "get ?b (KNum ''7'') None = Inr (Num 5)"
    by (simp add: get_def constructor_def)
  have sc: "is_scalar (Num 5)" by simp
  have dm: "map_mem ?b = None" by (simp add: constructor_def)
  have one: "set_value ?b (KNum ''7'') (Str ''x'') (Some [''a'', ''b'']) = (Inr (), ?b)"
    using set_path_on_scalar_root[OF key root, of "Str ''x''" "[''a'', ''b'']"] sc dm
    by (metis snd_conv)
  have key2: "typeof_string (KStr ''k'') \<or> typeof_number (KStr ''k'')" by simp
  have root2: "get (constructor [] True) (KStr ''k'') None = Inr Undefined"
    by (simp add: get_def constructor_def fetchEverything_def)
  have nil: "isNil Undefined" by simp
  have w: "lodash_set (Obj []) [''a'', ''b''] (Str ''x'') = Inr (Obj [(''a'', Obj [(''b'', Str ''x'')])])"
    by (simp add: lodash_defs)
  have two: "set_value (constructor [] True) (KStr ''k'') (Str ''x'') (Some [''a'', ''b''])
     = (Inr (),
        \<lparr>database = [(''k'', SqlText (Obj [(''a'', Obj [(''b'', Str ''x'')])]))],
         map_mem = Some [(''k'', Obj [(''a'', Obj [(''b'', Str ''x'')])])]\<rparr>)"
    using set_path_on_scalar_root[OF key2 root2, of "Str ''x''" "[''a'', ''b'']"] nil w
    by (simp add: constructor_def fetchEverything_def JSON_stringify_def SqlText_def)
  show ?thesis using key root sc dm one root2 nil w two by simp
qed

section \<open>Where the code departs from its documentation\<close>

text \<open>
  C1. \<^verbatim>\<open>ensure\<close> tests the value it finds with \<^verbatim>\<open>if (possibleValue)\<close>. On a new table
  \<^verbatim>\<open>ensure('k', 0)\<close> stores and returns \<^verbatim>\<open>0\<close>; \<^verbatim>\<open>ensure('k', 7)\<close> after it finds
  \<^verbatim>\<open>0\<close>, takes it for no value, stores \<^verbatim>\<open>7\<close> and returns \<^verbatim>\<open>7\<close>, with the map
  and without it.
\<close>

theorem ensure_replaces_falsy_value:
  "ensure (constructor [] True) (KStr ''k'') (Num 0) None
     = (Inr (Num 0), \<lparr>database = [(''k'', SqlText (Num 0))], map_mem = Some [(''k'', Num 0)]\<rparr>)
 \<and> ensure \<lparr>database = [(''k'', SqlText (Num 0))], map_mem = Some [(''k'', Num 0)]\<rparr>
       (KStr ''k'') (Num 7) None
     = (Inr (Num 7), \<lparr>database = [(''k'', SqlText (Num 7))], map_mem = Some [(''k'', Num 7)]\<rparr>)
 \<and> ensure (constructor [] False) (KStr ''k'') (Num 0) None
     = (Inr (Num 0), \<lparr>database = [(''k'', SqlText (Num 0))], map_mem = None\<rparr>)
 \<and> ensure \<lparr>database = [(''k'', SqlText (Num 0))], map_mem = None\<rparr>
       (KStr ''k'') (Num 7) None
     = (Inr (Num 7), \<lparr>database = [(''k'', SqlText (Num 7))], map_mem = None\<rparr>)"
  by (simp add: facade_defs JSON_stringify_def SqlText_def)

text \<open>
  C2. After \<^verbatim>\<open>set('user:1', 'x', 'tags.0')\<close> on a new table the value is
  \<^verbatim>\<open>{tags: ['x']}\<close>. \<^verbatim>\<open>delete('user:1', 'tags.0')\<close> goes through \<^verbatim>\<open>_.unset\<close>, which
  deletes the property and leaves a hole: \<^verbatim>\<open>get('user:1', 'tags')\<close> then returns an array
  of length one, holding a hole with the map and \<^verbatim>\<open>null\<close> without it, not \<^verbatim>\<open>[]\<close>.
\<close>

theorem delete_in_sequence_leaves_hole:
  "snd (set_value (constructor [] True) (KStr ''user:1'') (Str ''x'') (Some [''tags'', ''0'']))
     = \<lparr>database = [(''user:1'', SqlText (Obj [(''tags'', Arr [Str ''x''])]))],
        map_mem = Some [(''user:1'', Obj [(''tags'', Arr [Str ''x''])])]\<rparr>
 \<and> delete \<lparr>database = [(''user:1'', SqlText (Obj [(''tags'', Arr [Str ''x''])]))],
            map_mem = Some [(''user:1'', Obj [(''tags'', Arr [Str ''x''])])]\<rparr>
       (KStr ''user:1'') (Some [''tags'', ''0''])
     = (Inr True,
        \<lparr>database = [(''user:1'', SqlText (Obj [(''tags'', Arr [Null])]))],
         map_mem = Some [(''user:1'', Obj [(''tags'', Arr [Undefined])])]\<rparr>)
 \<and> get \<lparr>database = [(''user:1'', SqlText (Obj [(''tags'', Arr [Null])]))],
         map_mem = Some [(''user:1'', Obj [(''tags'', Arr [Undefined])])]\<rparr>
       (KStr ''user:1'') (Some [''tags''])
     = Inr (Arr [Undefined])
 \<and> get \<lparr>database = [(''user:1'', SqlText (Obj [(''tags'', Arr [Null])]))], map_mem = None\<rparr>
       (KStr ''user:1'') (Some [''tags''])
     = Inr (Arr [Null])"
  by (simp add: facade_defs lodash_defs JSON_stringify_def SqlText_def)

text \<open>
  C3. \<^verbatim>\<open>delete(key, path)\<close> returns what \<^verbatim>\<open>_.unset\<close> returns, and that is \<^verbatim>\<open>true\<close> also
  when there is no such property: on the stored \<^verbatim>\<open>{a: 1}\<close>, \<^verbatim>\<open>delete('k', 'b')\<close> returns
  \<^verbatim>\<open>true\<close>, and \<^verbatim>\<open>delete('k', 'a')\<close> returns \<^verbatim>\<open>true\<close> the first time and the second.
\<close>

theorem delete_path_returns_true_for_absent:
  "delete \<lparr>database = [(''k'', SqlText (Obj [(''a'', Num 1)]))],
           map_mem = Some [(''k'', Obj [(''a'', Num 1)])]\<rparr> (KStr ''k'') (Some [''b''])
     = (Inr True,
        \<lparr>database = [(''k'', SqlText (Obj [(''a'', Num 1)]))],
         map_mem = Some [(''k'', Obj [(''a'', Num 1)])]\<rparr>)
 \<and> delete \<lparr>database = [(''k'', SqlText (Obj [(''a'', Num 1)]))],
           map_mem = Some [(''k'', Obj [(''a'', Num 1)])]\<rparr> (KStr ''k'') (Some [''a''])
     = (Inr True,
        \<lparr>database = [(''k'', SqlText (Obj []))], map_mem = Some [(''k'', Obj [])]\<rparr>)
 \<and> delete \<lparr>database = [(''k'', SqlText (Obj []))], map_mem = Some [(''k'', Obj [])]\<rparr>
       (KStr ''k'') (Some [''a''])
     = (Inr True,
        \<lparr>database = [(''k'', SqlText (Obj []))], map_mem = Some [(''k'', Obj [])]\<rparr>)"
  by (simp add: facade_defs lodash_defs JSON_stringify_def SqlText_def)

text \<open>
  C4. \<^verbatim>\<open>delete(key)\<close> reports \<^verbatim>\<open>if (data)\<close>: for a stored \<^verbatim>\<open>0\<close>, \<^verbatim>\<open>false\<close> or
  \<^verbatim>\<open>''\<close> the entry is removed and the call returns \<^verbatim>\<open>false\<close>; for a stored \<^verbatim>\<open>1\<close> it
  returns \<^verbatim>\<open>true\<close>.
\<close>

theorem delete_key_returns_false_for_falsy:
  "delete \<lparr>database = [(''k'', SqlText (Num 0))], map_mem = Some [(''k'', Num 0)]\<rparr>
       (KStr ''k'') None
     = (Inr False, \<lparr>database = [], map_mem = Some []\<rparr>)
 \<and> delete \<lparr>database = [(''k'', SqlText (Bool False))], map_mem = None\<rparr> (KStr ''k'') None
     = (Inr False, \<lparr>database = [], map_mem = None\<rparr>)
 \<and> delete \<lparr>database = [(''k'', SqlText (Str ''''))], map_mem = None\<rparr> (KStr ''k'') None
     = (Inr False, \<lparr>database = [], map_mem = None\<rparr>)
 \<and> delete \<lparr>database = [(''k'', SqlText (Num 1))], map_mem = None\<rparr> (KStr ''k'') None
     = (Inr True, \<lparr>database = [], map_mem = None\<rparr>)"
  by (simp add: facade_defs JSON_stringify_def SqlText_def)

text \<open>
  C6. Where the value stored under the key is a number, a string or a boolean, the leaf of
  \<^verbatim>\<open>set(K, L, P)\<close> is lost: \<^verbatim>\<open>set\<close> replaces by \<^verbatim>\<open>{}\<close> only a value that is \<^verbatim>\<open>null\<close> or
  \<^verbatim>\<open>undefined\<close>, and \<^verbatim>\<open>_.set\<close> leaves a primitive as it is. On a stored \<^verbatim>\<open>5\<close>,
  \<^verbatim>\<open>set('k', 'x', 'a')\<close> returns; \<^verbatim>\<open>get('k', 'a')\<close> after it returns \<^verbatim>\<open>undefined\<close>, not
  \<^verbatim>\<open>'x'\<close>, and \<^verbatim>\<open>get('k')\<close> returns \<^verbatim>\<open>5\<close>, which has nothing at \<^verbatim>\<open>a\<close>; with the map
  and without it.
\<close>

theorem set_path_leaf_lost_on_primitive:
  "get (constructor [(''k'', SqlText (Num 5))] True) (KStr ''k'') None = Inr (Num 5)
 \<and> fst (set_value (constructor [(''k'', SqlText (Num 5))] True) (KStr ''k'') (Str ''x'')
          (Some [''a''])) = Inr ()
 \<and> get (snd (set_value (constructor [(''k'', SqlText (Num 5))] True) (KStr ''k'') (Str ''x'')
               (Some [''a'']))) (KStr ''k'') (Some [''a'']) = Inr Undefined
 \<and> get (snd (set_value (constructor [(''k'', SqlText (Num 5))] True) (KStr ''k'') (Str ''x'')
               (Some [''a'']))) (KStr ''k'') None = Inr (Num 5)
 \<and> node_at (Num 5) [''a''] = None
 \<and> fst (set_value (constructor [(''k'', SqlText (Num 5))] False) (KStr ''k'') (Str ''x'')
          (Some [''a''])) = Inr ()
 \<and> get (snd (set_value (constructor [(''k'', SqlText (Num 5))] False) (KStr ''k'') (Str ''x'')
               (Some [''a'']))) (KStr ''k'') (Some [''a'']) = Inr Undefined
 \<and> get (snd (set_value (constructor [(''k'', SqlText (Num 5))] False) (KStr ''k'') (Str ''x'')
               (Some [''a'']))) (KStr ''k'') None = Inr (Num 5)"
  by (simp add: facade_defs lodash_defs JSON_stringify_def SqlText_def)

section \<open>What the calls do keep\<close>

text \<open>
  X1. After \<^verbatim>\<open>deleteAll()\<close> there is no key and no row, and \<^verbatim>\<open>get\<close> finds nothing under any
  string or number, with a path or without.
\<close>

theorem deleteAll_empties:
  assumes "typeof_string key \<or> typeof_number key"
  shows "indices (deleteAll b) = {} \<and> database (deleteAll b) = []
       \<and> get (deleteAll b) key p = Inr Undefined"
proof -
  obtain k where k: "number_to_string key = KStr k"
    using assms number_to_string_cases by blast
  have nk: "key \<noteq> KNil" using assms by auto
  show ?thesis
    using k nk
    by (cases "map_mem b"; cases p)
       (simp_all add: deleteAll_def indices_def get_def lodash_get_def)
qed

theorem deleteAll_empties_witness:
  "(typeof_string (KNum ''3'') \<or> typeof_number (KNum ''3''))
 \<and> indices (deleteAll (constructor [(''3'', SqlText (Num 1))] True)) = {}
 \<and> get (deleteAll (constructor [(''3'', SqlText (Num 1))] True)) (KNum ''3'') None = Inr Undefined"
proof -
  have k: "typeof_string (KNum ''3'') \<or> typeof_number (KNum ''3'')" by simp
  show ?thesis
    using k deleteAll_empties[OF k, of "constructor [(''3'', SqlText (Num 1))] True" None]
    by simp
qed

text \<open>
  X2. \<^verbatim>\<open>delete(key)\<close> for a string or a number removes the entry, whatever it returns: the row
  is gone and \<^verbatim>\<open>get(key)\<close> finds nothing. What it returns is the truthiness of the value
  it found, so \<^verbatim>\<open>false\<close> for a key that was not there.
\<close>

theorem delete_entry_then_absent:
  assumes "typeof_string key \<or> typeof_number key" and "get b key None = Inr v"
  shows "fst (delete b key None) = Inr (truthy v)
       \<and> get (snd (delete b key None)) key None = Inr Undefined
       \<and> (\<exists>k. number_to_string key = KStr k
             \<and> map_of (database (snd (delete b key None))) k = None)"
proof -
  obtain k where k: "number_to_string key = KStr k"
    using assms(1) number_to_string_cases by blast
  have nk: "key \<noteq> KNil" using assms(1) by auto
  have g: "get b (KStr k) None = Inr v"
    using assms(2) k nk by (simp add: get_def)
  show ?thesis
    using k nk g
    by (cases "map_mem b")
       (simp_all add: delete_def get_def delete_conv' Let_def)
qed

theorem delete_entry_then_absent_witness:
  "(typeof_string (KStr ''k'') \<or> typeof_number (KStr ''k''))
 \<and> get (constructor [(''k'', SqlText (Str ''v''))] True) (KStr ''k'') None = Inr (Str ''v'')
 \<and> fst (delete (constructor [(''k'', SqlText (Str ''v''))] True) (KStr ''k'') None) = Inr True
 \<and> get (snd (delete (constructor [(''k'', SqlText (Str ''v''))] True) (KStr ''k'') None))
       (KStr ''k'') None = Inr Undefined"
proof -
  have k: "typeof_string (KStr ''k'') \<or> typeof_number (KStr ''k'')" by simp
  have g: "get (constructor [(''k'', SqlText (Str ''v''))] True) (KStr ''k'') None = Inr (Str ''v'')"
    by (simp add: get_def constructor_def fetchEverything_def)
  show ?thesis
    using k g delete_entry_then_absent[OF k g] by simp
qed

text \<open>
  X3. \<^verbatim>\<open>ensure\<close> with a default that is not nil returns the value it finds when that value is
  truthy, and writes nothing.
\<close>

theorem ensure_keeps_truthy_value:
  assumes "\<not> isNil D" and "get b key path = Inr v" and "truthy v"
  shows "ensure b key D path = (Inr v, b)"
  using assms by (simp add: ensure_def)

theorem ensure_keeps_truthy_value_witness:
  "\<not> isNil (Num 9)
 \<and> get (constructor [(''k'', SqlText (Obj [(''a'', Num 1)]))] False) (KStr ''k'') (Some [''a''])
     = Inr (Num 1)
 \<and> truthy (Num 1)
 \<and> ensure (constructor [(''k'', SqlText (Obj [(''a'', Num 1)]))] False) (KStr ''k'') (Num 9)
       (Some [''a''])
     = (Inr (Num 1), constructor [(''k'', SqlText (Obj [(''a'', Num 1)]))] False)"
proof -
  have d: "\<not> isNil (Num 9)" by simp
  have g: "get (constructor [(''k'', SqlText (Obj [(''a'', Num 1)]))] False) (KStr ''k'')
             (Some [''a'']) = Inr (Num 1)"
    by (simp add: get_def constructor_def lodash_defs)
  have t: "truthy (Num 1)" by simp
  show ?thesis
    using d g t ensure_keeps_truthy_value[OF d g t] by simp
qed

text \<open>
  X4. \<^verbatim>\<open>ensure(key, D)\<close> for a string or a number under which \<^verbatim>\<open>get\<close> finds nothing truthy
  stores the Value \<open>D\<close> and returns it; \<^verbatim>\<open>get(key)\<close> then returns \<open>D\<close>.
\<close>

theorem ensure_persists_default:
  assumes "typeof_string key \<or> typeof_number key" and "get b key None = Inr v"
    and "\<not> truthy v" and "\<not> isNil D" and "is_json D"
  shows "fst (ensure b key D None) = Inr D
       \<and> get (snd (ensure b key D None)) key None = Inr D"
proof -
  obtain k where k: "number_to_string key = KStr k"
    using assms(1) number_to_string_cases by blast
  have nk: "key \<noteq> KNil" using assms(1) by auto
  have rd: "getValueObjectAtKey b (KStr k) = Inr v"
    using assms(2) k nk by (simp add: get_def split: sum.splits)
  show ?thesis
    using assms k nk rd
    by (cases "map_mem b")
       (simp_all add: ensure_def set_value_def get_def JSON_parse_stringify update_conv')
qed

theorem ensure_persists_default_witness:
  "(typeof_string (KStr ''k'') \<or> typeof_number (KStr ''k''))
 \<and> get (constructor [] True) (KStr ''k'') None = Inr Undefined
 \<and> \<not> truthy Undefined \<and> \<not> isNil (Obj []) \<and> is_json (Obj [])
 \<and> fst (ensure (constructor [] True) (KStr ''k'') (Obj []) None) = Inr (Obj [])
 \<and> get (snd (ensure (constructor [] True) (KStr ''k'') (Obj []) None)) (KStr ''k'') None
     = Inr (Obj [])"
proof -
  have k: "typeof_string (KStr ''k'') \<or> typeof_number (KStr ''k'')" by simp
  have g: "get (constructor [] True) (KStr ''k'') None = Inr Undefined"
    by (simp add: get_def constructor_def fetchEverything_def)
  have f: "\<not> truthy Undefined" and d: "\<not> isNil (Obj [])" and j: "is_json (Obj [])"
    by simp_all
  show ?thesis
    using k g f d j ensure_persists_default[OF k g f d j] by simp
qed

text \<open>
  X5. The scenario of the specification, with the map and without it: after
  \<^verbatim>\<open>set('user:1', {name: 'Ann', score: 0})\<close> and \<^verbatim>\<open>set('user:1', 5, 'score')\<close> the value is
  \<^verbatim>\<open>{name: 'Ann', score: 5}\<close>; after \<^verbatim>\<open>set('user:1', 'x', 'tags.0')\<close> the array
  \<^verbatim>\<open>['x']\<close> is at \<^verbatim>\<open>tags\<close>.
\<close>

theorem scenario_user_1:
  "fst (run [Set (KStr ''user:1'') (Obj [(''name'', Str ''Ann''), (''score'', Num 0)]) None,
             Set (KStr ''user:1'') (Num 5) (Some [''score'']),
             Get (KStr ''user:1'') None,
             Set (KStr ''user:1'') (Str ''x'') (Some [''tags'', ''0'']),
             Get (KStr ''user:1'') (Some [''tags''])] (constructor [] True))
     = [Inr Void, Inr Void,
        Inr (Value (Obj [(''name'', Str ''Ann''), (''score'', Num 5)])),
        Inr Void, Inr (Value (Arr [Str ''x'']))]
 \<and> fst (run [Set (KStr ''user:1'') (Obj [(''name'', Str ''Ann''), (''score'', Num 0)]) None,
             Set (KStr ''user:1'') (Num 5) (Some [''score'']),
             Get (KStr ''user:1'') None,
             Set (KStr ''user:1'') (Str ''x'') (Some [''tags'', ''0'']),
             Get (KStr ''user:1'') (Some [''tags''])] (constructor [] False))
     = [Inr Void, Inr Void,
        Inr (Value (Obj [(''name'', Str ''Ann''), (''score'', Num 5)])),
        Inr Void, Inr (Value (Arr [Str ''x'']))]"
  by (simp add: facade_defs lodash_defs JSON_stringify_def SqlText_def)

end
